theory Spec2Isabelle
  imports Main "HOL-Library.Word"
begin

section \<open>The cache simulator csim.c\<close>

text \<open>
  A shallow embedding of \<^verbatim>\<open>src/csim.c\<close>: the structs \<^verbatim>\<open>Line\<close>, \<^verbatim>\<open>Set\<close> and
  \<^verbatim>\<open>Cache\<close>, the access function \<^verbatim>\<open>isInCache\<close>, the constructor \<^verbatim>\<open>makeCache\<close>, the
  replay loop \<^verbatim>\<open>incrementStats\<close> and the part of \<^verbatim>\<open>main\<close> that builds the geometry
  and runs the replay.

  Conventions of the embedding.
  \<^item> \<^verbatim>\<open>unsigned long\<close> is \<open>64 word\<close>; C \<^verbatim>\<open>int\<close> is \<open>int\<close>, and every place where a C
    \<^verbatim>\<open>int\<close> could leave its range in a run of the program is a branch of the model
    (\<open>IntOverflow\<close>, \<open>ShiftRange\<close>).
  \<^item> A heap array is a list whose length is the number of elements allocated; an access
    beyond it is the error \<open>OutOfBounds\<close>. Allocation itself is assumed to succeed.
  \<^item> Everything the C standard leaves undefined is an error value: the model never
    invents a result for it.
\<close>

subsection \<open>Data\<close>

datatype error = ShiftRange | OutOfBounds | IntOverflow

record Line =
  validbit :: bool
  tagbits :: "64 word"
  dirtybit :: bool
  timestamp :: int

text \<open>\<^verbatim>\<open>struct Set\<close> holds only the pointer to its lines.\<close>

type_synonym Set = "Line list"

text \<open>
  \<^verbatim>\<open>struct Cache\<close>. Its fields \<^verbatim>\<open>S, E, B, s, b\<close> carry the prefix \<open>c_\<close> here, since a
  record field is a constant and a one-letter constant would capture the variables of
  every statement.
\<close>

record Cache =
  c_S :: int
  c_E :: int
  c_B :: int
  c_s :: int
  c_b :: int
  sets :: "Set list"

definition STATNUM :: nat where
  "STATNUM = 5"

definition ADDR_BITS :: int where
  "ADDR_BITS = 64"

subsection \<open>Shifts of an unsigned long\<close>

text \<open>
  \<^verbatim>\<open>x >> n\<close> and \<^verbatim>\<open>x << n\<close> on a 64-bit operand are defined for \<open>0 \<le> n < 64\<close> only.
\<close>

definition shr64 :: "64 word \<Rightarrow> int \<Rightarrow> error + 64 word" where
  "shr64 x n = (if 0 \<le> n \<and> n < 64 then Inr (drop_bit (nat n) x) else Inl ShiftRange)"

definition shl64 :: "64 word \<Rightarrow> int \<Rightarrow> error + 64 word" where
  "shl64 x n = (if 0 \<le> n \<and> n < 64 then Inr (push_bit (nat n) x) else Inl ShiftRange)"

subsection \<open>isInCache: address decomposition (lines 57 to 66)\<close>

text \<open>
  \<^verbatim>\<open>unsigned long tagshift = cache->s + cache->b; unsigned long tag = address >> tagshift;\<close>
  A negative sum converts to an unsigned value of at least \<open>2 ^ 63\<close>, so the shift is
  defined exactly when \<open>0 \<le> s + b < 64\<close>.
\<close>

definition addr_tag :: "Cache \<Rightarrow> 64 word \<Rightarrow> error + 64 word" where
  "addr_tag cache address = shr64 address (c_s cache + c_b cache)"

text \<open>
  \<^verbatim>\<open>set = (address << (ADDR_BITS - s - b)) >> (ADDR_BITS - s); if (s == 0) set = 0;\<close>
  When \<open>s = 0\<close> the second shift is by 64; the source says so in its comment, discards
  that value and stores 0. The model follows the source's intent there and yields 0
  without looking at the discarded shifts; for \<open>s \<noteq> 0\<close> both shifts must be defined.
\<close>

definition addr_set :: "Cache \<Rightarrow> 64 word \<Rightarrow> error + 64 word" where
  "addr_set cache address =
     (if c_s cache = 0 then Inr 0
      else (case shl64 address (ADDR_BITS - c_s cache - c_b cache) of
              Inl e \<Rightarrow> Inl e
            | Inr x \<Rightarrow> shr64 x (ADDR_BITS - c_s cache)))"

subsection \<open>isInCache: the scan of the set (lines 68 to 101)\<close>

text \<open>
  The \<^verbatim>\<open>for\<close> loop leaves in one of three ways: the \<^verbatim>\<open>return\<close> of a hit at line \<open>i\<close>,
  the \<^verbatim>\<open>break\<close> at the first invalid line (\<open>notFull = true\<close>, \<open>index = i\<close>), or the end
  of the loop with \<open>notFull = false\<close> and the \<open>index\<close> of the oldest line seen.
  \<open>Miss notFull index\<close> carries the two variables the code after the loop reads.
\<close>

datatype scan = Hit nat | Miss bool nat

function scan_loop :: "Line list \<Rightarrow> 64 word \<Rightarrow> int \<Rightarrow> nat \<Rightarrow> nat \<Rightarrow> int \<Rightarrow> error + scan" where
  "scan_loop lines tag E i index oldest =
     (if int i < E then
        (if i < length lines then
           (if tagbits (lines ! i) = tag \<and> validbit (lines ! i) then Inr (Hit i)
            else if \<not> validbit (lines ! i) then Inr (Miss True i)
            else if timestamp (lines ! i) < oldest
              then scan_loop lines tag E (Suc i) i (timestamp (lines ! i))
              else scan_loop lines tag E (Suc i) index oldest)
         else Inl OutOfBounds)
      else Inr (Miss False index))"
  by pat_completeness auto
termination
  by (relation "measure (\<lambda>(lines, tag, E, i, index, oldest). nat (E - int i))") auto

declare scan_loop.simps [simp del]

subsection \<open>isInCache\<close>

text \<open>Writing line \<open>i\<close> of set \<open>set_i\<close>; both indices are checked by the caller.\<close>

definition put_line :: "Cache \<Rightarrow> nat \<Rightarrow> nat \<Rightarrow> Line \<Rightarrow> Cache" where
  "put_line cache set_i i l =
     cache\<lparr>sets := (sets cache)[set_i := (sets cache ! set_i)[i := l]]\<rparr>"

text \<open>
  \<open>result\<close> is the caller's array of five flags: 0 hit, 1 miss, 2 eviction, 3 a line
  became dirty, 4 a dirty line was evicted. isInCache only ever sets flags.
  Every path dereferences \<^verbatim>\<open>cache->sets[set]\<close> (in the loop, or at \<open>index\<close> after it), so
  the set index \<open>set_i\<close> (the source's \<^verbatim>\<open>set\<close>) is checked once, before the scan.
\<close>

definition isInCache ::
    "64 word \<Rightarrow> Cache \<Rightarrow> char \<Rightarrow> int \<Rightarrow> bool list \<Rightarrow> error + (Cache \<times> bool list)" where
  "isInCache address cache op num result =
     (case addr_tag cache address of
        Inl e \<Rightarrow> Inl e
      | Inr tag \<Rightarrow>
     (case addr_set cache address of
        Inl e \<Rightarrow> Inl e
      | Inr set_i \<Rightarrow>
     (if \<not> unat set_i < length (sets cache) then Inl OutOfBounds
      else
     (case scan_loop (sets cache ! unat set_i) tag (c_E cache) 0 0 num of
        Inl e \<Rightarrow> Inl e
      | Inr (Hit i) \<Rightarrow>
          (let l = (sets cache ! unat set_i ! i)\<lparr>timestamp := num\<rparr>;
               result1 = result[0 := True]
           in if op = CHR ''S'' \<and> dirtybit l = False
              then Inr (put_line cache (unat set_i) i (l\<lparr>dirtybit := True\<rparr>), result1[3 := True])
              else Inr (put_line cache (unat set_i) i l, result1))
      | Inr (Miss notFull index) \<Rightarrow>
          (if \<not> index < length (sets cache ! unat set_i) then Inl OutOfBounds
           else
             (let result1 = result[1 := True];
                  l1 = (sets cache ! unat set_i ! index)\<lparr>timestamp := num, tagbits := tag\<rparr>;
                  l2 = (if notFull then l1\<lparr>validbit := True\<rparr>
                        else if dirtybit l1 then l1\<lparr>dirtybit := False\<rparr> else l1);
                  result2 = (if notFull then result1
                             else if dirtybit l1 then result1[2 := True, 4 := True]
                             else result1[2 := True]);
                  l3 = (if op = CHR ''S'' then l2\<lparr>dirtybit := True\<rparr> else l2);
                  result3 = (if op = CHR ''S'' then result2[3 := True] else result2)
              in Inr (put_line cache (unat set_i) index l3, result3)))))))"

subsection \<open>makeCache\<close>

text \<open>
  \<open>S\<close> sets of \<open>E\<close> lines each, every line invalid, clean, with timestamp and tag 0.
  The loops run \<open>S\<close> and \<open>E\<close> times, that is not at all for a bound of 0 or less.
  The function checks nothing and has no failure path.
\<close>

definition init_line :: Line where
  "init_line = \<lparr>validbit = False, tagbits = 0, dirtybit = False, timestamp = 0\<rparr>"

definition makeCache :: "Cache \<Rightarrow> Cache" where
  "makeCache cache =
     cache\<lparr>sets := replicate (nat (c_S cache)) (replicate (nat (c_E cache)) init_line)\<rparr>"

subsection \<open>incrementStats\<close>

text \<open>
  One record of the trace, as \<^verbatim>\<open>fscanf\<close> delivers it: the instruction character, the
  address and the size. Reading the file is outside the model: a trace is the list
  of its records.
\<close>

record access =
  instruction :: char
  address :: "64 word"
  size_acc :: int

text \<open>
  \<^verbatim>\<open>csim_stats_t\<close> is declared in \<^verbatim>\<open>cachelab.h\<close>, which is not among the sources.
  Modelled from the spec: the type \<^verbatim>\<open>csim_stats_t\<close>, a record of the five counters
  hits, misses, evictions, dirty_bytes and dirty_evictions. The counters are
  integers here, so that a subtraction below zero would show as a negative value.
  They agree with unsigned 64-bit counters as long as they stay between 0 and
  \<open>2 ^ 64 - 1\<close>, as they do in a run of \<^verbatim>\<open>main\<close>: there are fewer than \<open>2 ^ 31\<close>
  records, \<open>B\<close> is at most \<open>2 ^ 30\<close>, and \<open>dirty_bytes\<close> is shown below never to be
  negative.
\<close>

record csim_stats =
  hits :: int
  misses :: int
  evictions :: int
  dirty_bytes :: int
  dirty_evictions :: int

text \<open>Lines 179 to 194: folding the five flags into the counters.\<close>

definition fold_outcome :: "int \<Rightarrow> bool list \<Rightarrow> csim_stats \<Rightarrow> csim_stats" where
  "fold_outcome B outcome stats =
     (let st0 = (if outcome ! 0 then stats\<lparr>hits := hits stats + 1\<rparr> else stats);
          st1 = (if outcome ! 1 then st0\<lparr>misses := misses st0 + 1\<rparr> else st0);
          st2 = (if outcome ! 2 then st1\<lparr>evictions := evictions st1 + 1\<rparr> else st1);
          st3 = (if outcome ! 3 then st2\<lparr>dirty_bytes := dirty_bytes st2 + B\<rparr> else st2);
          st4 = (if outcome ! 4
                 then st3\<lparr>dirty_evictions := dirty_evictions st3 + B,
                          dirty_bytes := dirty_bytes st3 - B\<rparr>
                 else st3)
      in st4)"

text \<open>
  The \<^verbatim>\<open>while\<close> loop over the records, with \<open>linenum\<close> as its counter. The flags are
  reset to false before each call. \<^verbatim>\<open>linenum++\<close> on the largest \<^verbatim>\<open>int\<close> overflows.
\<close>

fun incrementStats_loop ::
    "access list \<Rightarrow> int \<Rightarrow> csim_stats \<Rightarrow> Cache \<Rightarrow> error + (csim_stats \<times> Cache)" where
  "incrementStats_loop [] linenum stats cache = Inr (stats, cache)"
| "incrementStats_loop (r # trace) linenum stats cache =
     (case isInCache (address r) cache (instruction r) linenum (replicate STATNUM False) of
        Inl e \<Rightarrow> Inl e
      | Inr (cache', outcome) \<Rightarrow>
          (if linenum = 2147483647 then Inl IntOverflow
           else incrementStats_loop trace (linenum + 1)
                  (fold_outcome (c_B cache') outcome stats) cache'))"

definition incrementStats :: "access list \<Rightarrow> csim_stats \<Rightarrow> Cache \<Rightarrow> error + (csim_stats \<times> Cache)" where
  "incrementStats trace stats cache = incrementStats_loop trace 0 stats cache"

subsection \<open>main\<close>

text \<open>\<^verbatim>\<open>1 << n\<close> on an \<^verbatim>\<open>int\<close>: defined when the result fits, \<open>0 \<le> n \<le> 30\<close>.\<close>

definition shl1 :: "int \<Rightarrow> error + int" where
  "shl1 n = (if 0 \<le> n \<and> n \<le> 30 then Inr (2 ^ nat n) else Inl ShiftRange)"

definition zero_stats :: csim_stats where
  "zero_stats = \<lparr>hits = 0, misses = 0, evictions = 0, dirty_bytes = 0, dirty_evictions = 0\<rparr>"

text \<open>
  The geometry as the option loop of \<^verbatim>\<open>main\<close> stores it, for the values \<open>s\<close>, \<open>E\<close>, \<open>b\<close>
  that \<^verbatim>\<open>atoi\<close> returned, followed by \<^verbatim>\<open>makeCache\<close>.
\<close>

definition main_cache :: "int \<Rightarrow> int \<Rightarrow> int \<Rightarrow> error + Cache" where
  "main_cache s E b =
     (case shl1 s of
        Inl e \<Rightarrow> Inl e
      | Inr S \<Rightarrow>
     (case shl1 b of
        Inl e \<Rightarrow> Inl e
      | Inr B \<Rightarrow>
          Inr (makeCache \<lparr>c_S = S, c_E = E, c_B = B, c_s = s, c_b = b, sets = []\<rparr>)))"

text \<open>\<^verbatim>\<open>main\<close> up to the statistics it hands to \<^verbatim>\<open>printSummary\<close>.\<close>

definition csim_main :: "int \<Rightarrow> int \<Rightarrow> int \<Rightarrow> access list \<Rightarrow> error + csim_stats" where
  "csim_main s E b trace =
     (case main_cache s E b of
        Inl e \<Rightarrow> Inl e
      | Inr cache \<Rightarrow>
     (case incrementStats trace zero_stats cache of
        Inl e \<Rightarrow> Inl e
      | Inr (stats, cache') \<Rightarrow> Inr stats))"

section \<open>Vocabulary of the properties\<close>

subsection \<open>Invariants of a set and of the cache\<close>

text \<open>
  The valid lines of a set come first in slot order.
\<close>

definition prefix_valid :: "Line list \<Rightarrow> bool" where
  "prefix_valid ls \<longleftrightarrow> (\<forall>i<length ls. validbit (ls ! i) \<longrightarrow> (\<forall>j<i. validbit (ls ! j)))"

text \<open>
  No two valid lines of a set carry the same tag.
\<close>

definition distinct_tags :: "Line list \<Rightarrow> bool" where
  "distinct_tags ls \<longleftrightarrow>
     (\<forall>i<length ls. \<forall>j<length ls.
        validbit (ls ! i) \<and> validbit (ls ! j) \<and> tagbits (ls ! i) = tagbits (ls ! j) \<longrightarrow> i = j)"

text \<open>
  A line that is not valid is not dirty.
\<close>

definition clean_invalid :: "Line list \<Rightarrow> bool" where
  "clean_invalid ls \<longleftrightarrow> (\<forall>i<length ls. \<not> validbit (ls ! i) \<longrightarrow> \<not> dirtybit (ls ! i))"

text \<open>
  A set of a cache with \<open>E\<close> lines per set: it has that many lines and the three
  properties above.
\<close>

definition set_inv :: "int \<Rightarrow> Line list \<Rightarrow> bool" where
  "set_inv E ls \<longleftrightarrow> length ls = nat E \<and> prefix_valid ls \<and> distinct_tags ls \<and> clean_invalid ls"

definition cache_inv :: "Cache \<Rightarrow> bool" where
  "cache_inv c \<longleftrightarrow> (\<forall>i<length (sets c). set_inv (c_E c) (sets c ! i))"

text \<open>
  The geometries for which every step of \<^verbatim>\<open>isInCache\<close> is defined: the shifts are in
  range, there is a line to replace, and there is a set for every set index.
\<close>

definition geometry_ok :: "Cache \<Rightarrow> bool" where
  "geometry_ok c \<longleftrightarrow>
     0 \<le> c_s c \<and> 0 \<le> c_b c \<and> c_s c + c_b c < 64 \<and> 1 \<le> c_E c \<and>
     length (sets c) = 2 ^ nat (c_s c)"

text \<open>
  Every valid line was last used before time \<open>n\<close>.
\<close>

definition stamps_below :: "int \<Rightarrow> Cache \<Rightarrow> bool" where
  "stamps_below n c \<longleftrightarrow>
     (\<forall>si<length (sets c). \<forall>i<length (sets c ! si).
        validbit (sets c ! si ! i) \<longrightarrow> timestamp (sets c ! si ! i) < n)"

subsection \<open>Reachable caches\<close>

text \<open>
  The caches that \<^verbatim>\<open>makeCache\<close> followed by any number of successful calls of
  \<^verbatim>\<open>isInCache\<close> produces from the geometry \<open>g\<close>, whatever the addresses, operations,
  times and flag arrays of the calls.
\<close>

inductive reachable :: "Cache \<Rightarrow> Cache \<Rightarrow> bool" for g :: Cache where
  init: "reachable g (makeCache g)"
| step: "reachable g c \<Longrightarrow> isInCache a c op num res = Inr (c', res') \<Longrightarrow> reachable g c'"

subsection \<open>Dirty lines\<close>

text \<open>
  The number of lines of the cache that are valid and dirty.
\<close>

definition count_dirty_set :: "Line list \<Rightarrow> nat" where
  "count_dirty_set ls = length (filter (\<lambda>l. validbit l \<and> dirtybit l) ls)"

definition count_dirty :: "Cache \<Rightarrow> nat" where
  "count_dirty c = sum_list (map count_dirty_set (sets c))"

subsection \<open>Concrete caches and records\<close>

text \<open>
  One set of two lines and blocks of 8 bytes: the geometry, the cache after a store
  to address 0 at time 0, and the cache after a further load from address 8 at time 1.
\<close>

definition two_way_geometry :: Cache where
  "two_way_geometry = \<lparr>c_S = 1, c_E = 2, c_B = 8, c_s = 0, c_b = 3, sets = []\<rparr>"

definition two_way_half :: Cache where
  "two_way_half =
     \<lparr>c_S = 1, c_E = 2, c_B = 8, c_s = 0, c_b = 3,
      sets = [[\<lparr>validbit = True, tagbits = 0, dirtybit = True, timestamp = 0\<rparr>, init_line]]\<rparr>"

definition two_way_filled :: Cache where
  "two_way_filled =
     \<lparr>c_S = 1, c_E = 2, c_B = 8, c_s = 0, c_b = 3,
      sets = [[\<lparr>validbit = True, tagbits = 0, dirtybit = True, timestamp = 0\<rparr>,
               \<lparr>validbit = True, tagbits = 1, dirtybit = False, timestamp = 1\<rparr>]]\<rparr>"

text \<open>
  Four sets (\<open>s = 2\<close>) with blocks of 8 bytes (\<open>b = 3\<close>).
\<close>

definition four_sets_geometry :: Cache where
  "four_sets_geometry = \<lparr>c_S = 4, c_E = 2, c_B = 8, c_s = 2, c_b = 3, sets = []\<rparr>"

text \<open>
  A cache whose fields say \<open>s = 32\<close> and \<open>b = 32\<close>, so that \<open>s + b\<close> is the full width of
  an address.
\<close>

definition full_width_geometry :: Cache where
  "full_width_geometry =
     \<lparr>c_S = 1, c_E = 1, c_B = 1, c_s = 32, c_b = 32, sets = [[init_line]]\<rparr>"

definition store_0 :: access where
  "store_0 = \<lparr>instruction = CHR ''S'', address = 0, size_acc = 1\<rparr>"

definition load_8 :: access where
  "load_8 = \<lparr>instruction = CHR ''L'', address = 8, size_acc = 4\<rparr>"

definition load_0 :: access where
  "load_0 = \<lparr>instruction = CHR ''L'', address = 0, size_acc = 1\<rparr>"

definition load_16 :: access where
  "load_16 = \<lparr>instruction = CHR ''L'', address = 16, size_acc = 1\<rparr>"

section \<open>Address decomposition\<close>

text \<open>
  The two shifts of the set index keep the \<open>s\<close> bits above the \<open>b\<close> offset bits.
\<close>

lemma set_shift_word:
  fixes a :: "64 word"
  assumes "0 < n" "n + m \<le> 64"
  shows "drop_bit (64 - n) (push_bit (64 - n - m) a) = take_bit n (drop_bit m a)"
proof (rule bit_word_eqI)
  fix k assume "k < LENGTH(64)"
  then show "bit (drop_bit (64 - n) (push_bit (64 - n - m) a)) k = bit (take_bit n (drop_bit m a)) k"
    using assms by (auto simp: bit_simps) (simp_all add: algebra_simps)
qed

lemma addr_tag_ok:
  assumes "0 \<le> c_s c + c_b c" "c_s c + c_b c < 64"
  shows "addr_tag c a = Inr (drop_bit (nat (c_s c + c_b c)) a)"
  using assms by (simp add: addr_tag_def shr64_def)

lemma addr_set_ok:
  assumes "0 \<le> c_s c" "0 \<le> c_b c" "c_s c + c_b c \<le> 64"
  shows "addr_set c a = Inr (take_bit (nat (c_s c)) (drop_bit (nat (c_b c)) a))"
proof (cases "c_s c = 0")
  case True
  then show ?thesis by (simp add: addr_set_def)
next
  case False
  with assms have n: "0 < nat (c_s c)" "nat (c_s c) + nat (c_b c) \<le> 64" by auto
  have e1: "nat (64 - c_s c - c_b c) = 64 - nat (c_s c) - nat (c_b c)"
    using assms by auto
  have e2: "nat (64 - c_s c) = 64 - nat (c_s c)" using assms by auto
  show ?thesis
    using False assms set_shift_word [OF n, of a]
    by (simp add: addr_set_def shl64_def shr64_def ADDR_BITS_def e1 e2)
qed

lemma unat_set_index:
  fixes a :: "64 word"
  shows "unat (take_bit n (drop_bit m a)) = (unat a div 2 ^ m) mod 2 ^ n"
proof -
  have "unat (take_bit n (drop_bit m a)) = take_bit n (unat (drop_bit m a))"
    by (simp add: unsigned_take_bit_eq)
  also have "\<dots> = take_bit n (drop_bit m (unat a))"
    by (simp add: unat_drop_bit_eq)
  also have "\<dots> = (unat a div 2 ^ m) mod 2 ^ n"
    by (simp add: take_bit_eq_mod drop_bit_eq_div)
  finally show ?thesis .
qed

lemma addr_same_fields:
  assumes "c_s c' = c_s c" "c_b c' = c_b c"
  shows "addr_tag c' a = addr_tag c a" "addr_set c' a = addr_set c a"
  unfolding addr_tag_def addr_set_def by (simp_all only: assms)

section \<open>The scan\<close>

text \<open>
  One iteration of the loop, case by case.
\<close>

lemma scan_loop_end:
  "\<not> int i < E \<Longrightarrow> scan_loop ls tag E i idx old = Inr (Miss False idx)"
  by (subst scan_loop.simps) simp

lemma scan_loop_beyond:
  "int i < E \<Longrightarrow> \<not> i < length ls \<Longrightarrow> scan_loop ls tag E i idx old = Inl OutOfBounds"
  by (subst scan_loop.simps) simp

lemma scan_loop_hit:
  "int i < E \<Longrightarrow> i < length ls \<Longrightarrow> tagbits (ls ! i) = tag \<Longrightarrow> validbit (ls ! i) \<Longrightarrow>
   scan_loop ls tag E i idx old = Inr (Hit i)"
  by (subst scan_loop.simps) simp

lemma scan_loop_invalid:
  "int i < E \<Longrightarrow> i < length ls \<Longrightarrow> \<not> validbit (ls ! i) \<Longrightarrow>
   scan_loop ls tag E i idx old = Inr (Miss True i)"
  by (subst scan_loop.simps) simp

lemma scan_loop_older:
  "int i < E \<Longrightarrow> i < length ls \<Longrightarrow> validbit (ls ! i) \<Longrightarrow> tagbits (ls ! i) \<noteq> tag \<Longrightarrow>
   timestamp (ls ! i) < old \<Longrightarrow>
   scan_loop ls tag E i idx old = scan_loop ls tag E (Suc i) i (timestamp (ls ! i))"
  by (subst scan_loop.simps) simp

lemma scan_loop_newer:
  "int i < E \<Longrightarrow> i < length ls \<Longrightarrow> validbit (ls ! i) \<Longrightarrow> tagbits (ls ! i) \<noteq> tag \<Longrightarrow>
   \<not> timestamp (ls ! i) < old \<Longrightarrow>
   scan_loop ls tag E i idx old = scan_loop ls tag E (Suc i) idx old"
  by (subst scan_loop.simps) simp

lemma all_from_Suc:
  "P i \<Longrightarrow> (\<forall>j. Suc i \<le> j \<and> Q j \<longrightarrow> P j) \<Longrightarrow> (\<forall>j. i \<le> j \<and> Q j \<longrightarrow> P j)"
  by (metis Suc_leI le_neq_implies_less)

text \<open>
  What each way of leaving the loop says about the lines scanned.
\<close>

lemma scan_loop_Hit:
  "scan_loop ls tag E i idx old = Inr (Hit k) \<Longrightarrow>
     i \<le> k \<and> k < length ls \<and> int k < E \<and> tagbits (ls ! k) = tag \<and> validbit (ls ! k) \<and>
     (\<forall>j. i \<le> j \<and> j < k \<longrightarrow> validbit (ls ! j) \<and> tagbits (ls ! j) \<noteq> tag)"
proof (induction ls tag E i idx old rule: scan_loop.induct)
  case (1 lines tag E i index oldest)
  consider (e) "\<not> int i < E"
    | (b) "int i < E" "\<not> i < length lines"
    | (h) "int i < E" "i < length lines" "tagbits (lines ! i) = tag" "validbit (lines ! i)"
    | (v) "int i < E" "i < length lines" "\<not> validbit (lines ! i)"
    | (o) "int i < E" "i < length lines" "validbit (lines ! i)" "tagbits (lines ! i) \<noteq> tag"
          "timestamp (lines ! i) < oldest"
    | (n) "int i < E" "i < length lines" "validbit (lines ! i)" "tagbits (lines ! i) \<noteq> tag"
          "\<not> timestamp (lines ! i) < oldest"
    by blast
  then show ?case
  proof cases
    case e
    with "1.prems" show ?thesis by (auto simp: scan_loop_end)
  next
    case b
    with "1.prems" show ?thesis by (auto simp: scan_loop_beyond)
  next
    case h
    with "1.prems" show ?thesis by (auto simp: scan_loop_hit)
  next
    case v
    with "1.prems" show ?thesis by (auto simp: scan_loop_invalid)
  next
    case o
    with "1.prems" have r: "scan_loop lines tag E (Suc i) i (timestamp (lines ! i)) = Inr (Hit k)"
      by (simp add: scan_loop_older)
    from o have c: "\<not> (tagbits (lines ! i) = tag \<and> validbit (lines ! i))" "\<not> \<not> validbit (lines ! i)" by simp_all
    from "1.IH"(1) [OF o(1) o(2) c o(5) r]
    have ih: "Suc i \<le> k \<and> k < length lines \<and> int k < E \<and> tagbits (lines ! k) = tag \<and> validbit (lines ! k) \<and>
       (\<forall>j. Suc i \<le> j \<and> j < k \<longrightarrow> validbit (lines ! j) \<and> tagbits (lines ! j) \<noteq> tag)" .
    have "\<forall>j. i \<le> j \<and> j < k \<longrightarrow> validbit (lines ! j) \<and> tagbits (lines ! j) \<noteq> tag"
      by (rule all_from_Suc) (use o ih in simp_all)
    with ih show ?thesis by simp
  next
    case n
    with "1.prems" have r: "scan_loop lines tag E (Suc i) index oldest = Inr (Hit k)"
      by (simp add: scan_loop_newer)
    from n have c: "\<not> (tagbits (lines ! i) = tag \<and> validbit (lines ! i))" "\<not> \<not> validbit (lines ! i)" by simp_all
    from "1.IH"(2) [OF n(1) n(2) c n(5) r]
    have ih: "Suc i \<le> k \<and> k < length lines \<and> int k < E \<and> tagbits (lines ! k) = tag \<and> validbit (lines ! k) \<and>
       (\<forall>j. Suc i \<le> j \<and> j < k \<longrightarrow> validbit (lines ! j) \<and> tagbits (lines ! j) \<noteq> tag)" .
    have "\<forall>j. i \<le> j \<and> j < k \<longrightarrow> validbit (lines ! j) \<and> tagbits (lines ! j) \<noteq> tag"
      by (rule all_from_Suc) (use n ih in simp_all)
    with ih show ?thesis by simp
  qed
qed

lemma scan_loop_Miss_True:
  "scan_loop ls tag E i idx old = Inr (Miss True k) \<Longrightarrow>
     i \<le> k \<and> k < length ls \<and> int k < E \<and> \<not> validbit (ls ! k) \<and>
     (\<forall>j. i \<le> j \<and> j < k \<longrightarrow> validbit (ls ! j) \<and> tagbits (ls ! j) \<noteq> tag)"
proof (induction ls tag E i idx old rule: scan_loop.induct)
  case (1 lines tag E i index oldest)
  consider (e) "\<not> int i < E"
    | (b) "int i < E" "\<not> i < length lines"
    | (h) "int i < E" "i < length lines" "tagbits (lines ! i) = tag" "validbit (lines ! i)"
    | (v) "int i < E" "i < length lines" "\<not> validbit (lines ! i)"
    | (o) "int i < E" "i < length lines" "validbit (lines ! i)" "tagbits (lines ! i) \<noteq> tag"
          "timestamp (lines ! i) < oldest"
    | (n) "int i < E" "i < length lines" "validbit (lines ! i)" "tagbits (lines ! i) \<noteq> tag"
          "\<not> timestamp (lines ! i) < oldest"
    by blast
  then show ?case
  proof cases
    case e
    with "1.prems" show ?thesis by (auto simp: scan_loop_end)
  next
    case b
    with "1.prems" show ?thesis by (auto simp: scan_loop_beyond)
  next
    case h
    with "1.prems" show ?thesis by (auto simp: scan_loop_hit)
  next
    case v
    with "1.prems" show ?thesis by (auto simp: scan_loop_invalid)
  next
    case o
    with "1.prems" have r: "scan_loop lines tag E (Suc i) i (timestamp (lines ! i)) = Inr (Miss True k)"
      by (simp add: scan_loop_older)
    from o have c: "\<not> (tagbits (lines ! i) = tag \<and> validbit (lines ! i))" "\<not> \<not> validbit (lines ! i)" by simp_all
    from "1.IH"(1) [OF o(1) o(2) c o(5) r]
    have ih: "Suc i \<le> k \<and> k < length lines \<and> int k < E \<and> \<not> validbit (lines ! k) \<and>
       (\<forall>j. Suc i \<le> j \<and> j < k \<longrightarrow> validbit (lines ! j) \<and> tagbits (lines ! j) \<noteq> tag)" .
    have "\<forall>j. i \<le> j \<and> j < k \<longrightarrow> validbit (lines ! j) \<and> tagbits (lines ! j) \<noteq> tag"
      by (rule all_from_Suc) (use o ih in simp_all)
    with ih show ?thesis by simp
  next
    case n
    with "1.prems" have r: "scan_loop lines tag E (Suc i) index oldest = Inr (Miss True k)"
      by (simp add: scan_loop_newer)
    from n have c: "\<not> (tagbits (lines ! i) = tag \<and> validbit (lines ! i))" "\<not> \<not> validbit (lines ! i)" by simp_all
    from "1.IH"(2) [OF n(1) n(2) c n(5) r]
    have ih: "Suc i \<le> k \<and> k < length lines \<and> int k < E \<and> \<not> validbit (lines ! k) \<and>
       (\<forall>j. Suc i \<le> j \<and> j < k \<longrightarrow> validbit (lines ! j) \<and> tagbits (lines ! j) \<noteq> tag)" .
    have "\<forall>j. i \<le> j \<and> j < k \<longrightarrow> validbit (lines ! j) \<and> tagbits (lines ! j) \<noteq> tag"
      by (rule all_from_Suc) (use n ih in simp_all)
    with ih show ?thesis by simp
  qed
qed

lemma scan_loop_Miss_False_all:
  "scan_loop ls tag E i idx old = Inr (Miss False k) \<Longrightarrow>
     (\<forall>j. i \<le> j \<and> int j < E \<longrightarrow> j < length ls \<and> validbit (ls ! j) \<and> tagbits (ls ! j) \<noteq> tag)"
proof (induction ls tag E i idx old rule: scan_loop.induct)
  case (1 lines tag E i index oldest)
  consider (e) "\<not> int i < E"
    | (b) "int i < E" "\<not> i < length lines"
    | (h) "int i < E" "i < length lines" "tagbits (lines ! i) = tag" "validbit (lines ! i)"
    | (v) "int i < E" "i < length lines" "\<not> validbit (lines ! i)"
    | (o) "int i < E" "i < length lines" "validbit (lines ! i)" "tagbits (lines ! i) \<noteq> tag"
          "timestamp (lines ! i) < oldest"
    | (n) "int i < E" "i < length lines" "validbit (lines ! i)" "tagbits (lines ! i) \<noteq> tag"
          "\<not> timestamp (lines ! i) < oldest"
    by blast
  then show ?case
  proof cases
    case e
    then show ?thesis by auto
  next
    case b
    with "1.prems" show ?thesis by (auto simp: scan_loop_beyond)
  next
    case h
    with "1.prems" show ?thesis by (auto simp: scan_loop_hit)
  next
    case v
    with "1.prems" show ?thesis by (auto simp: scan_loop_invalid)
  next
    case o
    with "1.prems" have r: "scan_loop lines tag E (Suc i) i (timestamp (lines ! i)) = Inr (Miss False k)"
      by (simp add: scan_loop_older)
    from o have c: "\<not> (tagbits (lines ! i) = tag \<and> validbit (lines ! i))" "\<not> \<not> validbit (lines ! i)" by simp_all
    from "1.IH"(1) [OF o(1) o(2) c o(5) r]
    have ih: "\<forall>j. Suc i \<le> j \<and> int j < E \<longrightarrow>
       j < length lines \<and> validbit (lines ! j) \<and> tagbits (lines ! j) \<noteq> tag" .
    show ?thesis
      by (rule all_from_Suc) (use o ih in simp_all)
  next
    case n
    with "1.prems" have r: "scan_loop lines tag E (Suc i) index oldest = Inr (Miss False k)"
      by (simp add: scan_loop_newer)
    from n have c: "\<not> (tagbits (lines ! i) = tag \<and> validbit (lines ! i))" "\<not> \<not> validbit (lines ! i)" by simp_all
    from "1.IH"(2) [OF n(1) n(2) c n(5) r]
    have ih: "\<forall>j. Suc i \<le> j \<and> int j < E \<longrightarrow>
       j < length lines \<and> validbit (lines ! j) \<and> tagbits (lines ! j) \<noteq> tag" .
    show ?thesis
      by (rule all_from_Suc) (use n ih in simp_all)
  qed
qed

lemma scan_loop_total:
  "(\<forall>j. i \<le> j \<and> int j < E \<longrightarrow> j < length ls) \<Longrightarrow> \<exists>r. scan_loop ls tag E i idx old = Inr r"
proof (induction ls tag E i idx old rule: scan_loop.induct)
  case (1 lines tag E i index oldest)
  consider (e) "\<not> int i < E"
    | (b) "int i < E" "\<not> i < length lines"
    | (h) "int i < E" "i < length lines" "tagbits (lines ! i) = tag" "validbit (lines ! i)"
    | (v) "int i < E" "i < length lines" "\<not> validbit (lines ! i)"
    | (o) "int i < E" "i < length lines" "validbit (lines ! i)" "tagbits (lines ! i) \<noteq> tag"
          "timestamp (lines ! i) < oldest"
    | (n) "int i < E" "i < length lines" "validbit (lines ! i)" "tagbits (lines ! i) \<noteq> tag"
          "\<not> timestamp (lines ! i) < oldest"
    by blast
  then show ?case
  proof cases
    case e
    then show ?thesis by (simp add: scan_loop_end)
  next
    case b
    with "1.prems" show ?thesis by auto
  next
    case h
    then show ?thesis by (simp add: scan_loop_hit)
  next
    case v
    then show ?thesis by (simp add: scan_loop_invalid)
  next
    case o
    from o have c: "\<not> (tagbits (lines ! i) = tag \<and> validbit (lines ! i))" "\<not> \<not> validbit (lines ! i)" by simp_all
    from "1.prems" have p: "\<forall>j. Suc i \<le> j \<and> int j < E \<longrightarrow> j < length lines" by auto
    from "1.IH"(1) [OF o(1) o(2) c o(5) p] o show ?thesis by (simp add: scan_loop_older)
  next
    case n
    from n have c: "\<not> (tagbits (lines ! i) = tag \<and> validbit (lines ! i))" "\<not> \<not> validbit (lines ! i)" by simp_all
    from "1.prems" have p: "\<forall>j. Suc i \<le> j \<and> int j < E \<longrightarrow> j < length lines" by auto
    from "1.IH"(2) [OF n(1) n(2) c n(5) p] n show ?thesis by (simp add: scan_loop_newer)
  qed
qed

text \<open>
  At the end of a full scan \<open>index\<close> is either still the initial one, and then no line is
  older than the initial \<open>oldest\<close>, or it is the first line of least timestamp.
\<close>

lemma scan_loop_Miss_False_index:
  "scan_loop ls tag E i idx old = Inr (Miss False k) \<Longrightarrow>
     (k = idx \<and> (\<forall>j. i \<le> j \<and> int j < E \<longrightarrow> old \<le> timestamp (ls ! j))) \<or>
     (i \<le> k \<and> int k < E \<and> timestamp (ls ! k) < old \<and>
      (\<forall>j. i \<le> j \<and> int j < E \<longrightarrow> timestamp (ls ! k) \<le> timestamp (ls ! j)) \<and>
      (\<forall>j. i \<le> j \<and> j < k \<longrightarrow> timestamp (ls ! k) < timestamp (ls ! j)))"
proof (induction ls tag E i idx old rule: scan_loop.induct)
  case (1 lines tag E i index oldest)
  consider (e) "\<not> int i < E"
    | (b) "int i < E" "\<not> i < length lines"
    | (h) "int i < E" "i < length lines" "tagbits (lines ! i) = tag" "validbit (lines ! i)"
    | (v) "int i < E" "i < length lines" "\<not> validbit (lines ! i)"
    | (o) "int i < E" "i < length lines" "validbit (lines ! i)" "tagbits (lines ! i) \<noteq> tag"
          "timestamp (lines ! i) < oldest"
    | (n) "int i < E" "i < length lines" "validbit (lines ! i)" "tagbits (lines ! i) \<noteq> tag"
          "\<not> timestamp (lines ! i) < oldest"
    by blast
  then show ?case
  proof cases
    case e
    with "1.prems" show ?thesis by (auto simp: scan_loop_end)
  next
    case b
    with "1.prems" show ?thesis by (auto simp: scan_loop_beyond)
  next
    case h
    with "1.prems" show ?thesis by (auto simp: scan_loop_hit)
  next
    case v
    with "1.prems" show ?thesis by (auto simp: scan_loop_invalid)
  next
    case o
    with "1.prems" have r: "scan_loop lines tag E (Suc i) i (timestamp (lines ! i)) = Inr (Miss False k)"
      by (simp add: scan_loop_older)
    from o have c: "\<not> (tagbits (lines ! i) = tag \<and> validbit (lines ! i))" "\<not> \<not> validbit (lines ! i)"
      by simp_all
    from "1.IH"(1) [OF o(1) o(2) c o(5) r]
    have "(k = i \<and> (\<forall>j. Suc i \<le> j \<and> int j < E \<longrightarrow> timestamp (lines ! i) \<le> timestamp (lines ! j))) \<or>
          (Suc i \<le> k \<and> int k < E \<and> timestamp (lines ! k) < timestamp (lines ! i) \<and>
           (\<forall>j. Suc i \<le> j \<and> int j < E \<longrightarrow> timestamp (lines ! k) \<le> timestamp (lines ! j)) \<and>
           (\<forall>j. Suc i \<le> j \<and> j < k \<longrightarrow> timestamp (lines ! k) < timestamp (lines ! j)))" .
    then show ?thesis
    proof
      assume a: "k = i \<and> (\<forall>j. Suc i \<le> j \<and> int j < E \<longrightarrow> timestamp (lines ! i) \<le> timestamp (lines ! j))"
      have "\<forall>j. i \<le> j \<and> int j < E \<longrightarrow> timestamp (lines ! k) \<le> timestamp (lines ! j)"
        by (rule all_from_Suc) (use a in simp_all)
      with a o show ?thesis by auto
    next
      assume b: "Suc i \<le> k \<and> int k < E \<and> timestamp (lines ! k) < timestamp (lines ! i) \<and>
           (\<forall>j. Suc i \<le> j \<and> int j < E \<longrightarrow> timestamp (lines ! k) \<le> timestamp (lines ! j)) \<and>
           (\<forall>j. Suc i \<le> j \<and> j < k \<longrightarrow> timestamp (lines ! k) < timestamp (lines ! j))"
      have 1: "\<forall>j. i \<le> j \<and> int j < E \<longrightarrow> timestamp (lines ! k) \<le> timestamp (lines ! j)"
        by (rule all_from_Suc) (use b in simp_all)
      have 2: "\<forall>j. i \<le> j \<and> j < k \<longrightarrow> timestamp (lines ! k) < timestamp (lines ! j)"
        by (rule all_from_Suc) (use b in simp_all)
      from b 1 2 o show ?thesis by auto
    qed
  next
    case n
    with "1.prems" have r: "scan_loop lines tag E (Suc i) index oldest = Inr (Miss False k)"
      by (simp add: scan_loop_newer)
    from n have c: "\<not> (tagbits (lines ! i) = tag \<and> validbit (lines ! i))" "\<not> \<not> validbit (lines ! i)"
      by simp_all
    from "1.IH"(2) [OF n(1) n(2) c n(5) r]
    have "(k = index \<and> (\<forall>j. Suc i \<le> j \<and> int j < E \<longrightarrow> oldest \<le> timestamp (lines ! j))) \<or>
          (Suc i \<le> k \<and> int k < E \<and> timestamp (lines ! k) < oldest \<and>
           (\<forall>j. Suc i \<le> j \<and> int j < E \<longrightarrow> timestamp (lines ! k) \<le> timestamp (lines ! j)) \<and>
           (\<forall>j. Suc i \<le> j \<and> j < k \<longrightarrow> timestamp (lines ! k) < timestamp (lines ! j)))" .
    then show ?thesis
    proof
      assume a: "k = index \<and> (\<forall>j. Suc i \<le> j \<and> int j < E \<longrightarrow> oldest \<le> timestamp (lines ! j))"
      have "\<forall>j. i \<le> j \<and> int j < E \<longrightarrow> oldest \<le> timestamp (lines ! j)"
        by (rule all_from_Suc) (use a n in simp_all)
      with a show ?thesis by auto
    next
      assume b: "Suc i \<le> k \<and> int k < E \<and> timestamp (lines ! k) < oldest \<and>
           (\<forall>j. Suc i \<le> j \<and> int j < E \<longrightarrow> timestamp (lines ! k) \<le> timestamp (lines ! j)) \<and>
           (\<forall>j. Suc i \<le> j \<and> j < k \<longrightarrow> timestamp (lines ! k) < timestamp (lines ! j))"
      have 1: "\<forall>j. i \<le> j \<and> int j < E \<longrightarrow> timestamp (lines ! k) \<le> timestamp (lines ! j)"
        by (rule all_from_Suc) (use b n in simp_all)
      have 2: "\<forall>j. i \<le> j \<and> j < k \<longrightarrow> timestamp (lines ! k) < timestamp (lines ! j)"
        by (rule all_from_Suc) (use b n in simp_all)
      from b 1 2 show ?thesis by auto
    qed
  qed
qed

lemma scan_loop_finds:
  "i0 \<le> i \<Longrightarrow> int i < E \<Longrightarrow> i < length ls \<Longrightarrow> tagbits (ls ! i) = tag \<Longrightarrow> validbit (ls ! i) \<Longrightarrow>
   (\<forall>j. i0 \<le> j \<and> j < i \<longrightarrow> validbit (ls ! j) \<and> tagbits (ls ! j) \<noteq> tag) \<Longrightarrow>
   scan_loop ls tag E i0 idx old = Inr (Hit i)"
proof (induction "i - i0" arbitrary: i0 idx old)
  case 0
  then have "i0 = i" by simp
  with 0 show ?case by (simp add: scan_loop_hit)
next
  case (Suc d)
  then have lt: "i0 < i" by simp
  with Suc.prems have v: "validbit (ls ! i0)" "tagbits (ls ! i0) \<noteq> tag" by simp_all
  from lt Suc.prems have b: "int i0 < E" "i0 < length ls" by simp_all
  from Suc.hyps(2) lt have d: "d = i - Suc i0" by simp
  have rest: "\<forall>j. Suc i0 \<le> j \<and> j < i \<longrightarrow> validbit (ls ! j) \<and> tagbits (ls ! j) \<noteq> tag"
    using Suc.prems(6) by simp
  from lt have le: "Suc i0 \<le> i" by simp
  have next_hit: "scan_loop ls tag E (Suc i0) idx' old' = Inr (Hit i)" for idx' old'
    by (rule Suc.hyps(1) [OF d le Suc.prems(2,3,4,5) rest])
  show ?case
  proof (cases "timestamp (ls ! i0) < old")
    case True
    from scan_loop_older [OF b v True] next_hit show ?thesis by simp
  next
    case False
    from scan_loop_newer [OF b v False] next_hit show ?thesis by simp
  qed
qed

section \<open>The three outcomes of a successful access\<close>

lemma dirtybit_same:
  "dirtybit l \<Longrightarrow> l\<lparr>dirtybit := True\<rparr> = l" "\<not> dirtybit l \<Longrightarrow> l\<lparr>dirtybit := False\<rparr> = l"
  by (cases l, simp)+

lemma put_line_fields [simp]:
  "c_S (put_line c si i l) = c_S c" "c_E (put_line c si i l) = c_E c"
  "c_B (put_line c si i l) = c_B c" "c_s (put_line c si i l) = c_s c"
  "c_b (put_line c si i l) = c_b c"
  "sets (put_line c si i l) = (sets c)[si := (sets c ! si)[i := l]]"
  by (simp_all add: put_line_def)

lemma makeCache_fields [simp]:
  "c_S (makeCache g) = c_S g" "c_E (makeCache g) = c_E g" "c_B (makeCache g) = c_B g"
  "c_s (makeCache g) = c_s g" "c_b (makeCache g) = c_b g"
  "sets (makeCache g) = replicate (nat (c_S g)) (replicate (nat (c_E g)) init_line)"
  by (simp_all add: makeCache_def)

lemma flags_init [simp]: "length (replicate STATNUM False) = 5"
  by (simp add: STATNUM_def)

lemma isInCache_Inr_cases [consumes 1, case_names hit fill evict]:
  assumes "isInCache a c op n res = Inr (c', r)"
  obtains
    (hit) tag si i where
      "addr_tag c a = Inr tag" "addr_set c a = Inr si" "unat si < length (sets c)"
      "scan_loop (sets c ! unat si) tag (c_E c) 0 0 n = Inr (Hit i)"
      "c' = put_line c (unat si) i
              ((sets c ! unat si ! i)\<lparr>timestamp := n,
                 dirtybit := (dirtybit (sets c ! unat si ! i) \<or> op = CHR ''S'')\<rparr>)"
      "r = (if op = CHR ''S'' \<and> \<not> dirtybit (sets c ! unat si ! i)
            then res[0 := True, 3 := True] else res[0 := True])"
  | (fill) tag si i where
      "addr_tag c a = Inr tag" "addr_set c a = Inr si" "unat si < length (sets c)"
      "scan_loop (sets c ! unat si) tag (c_E c) 0 0 n = Inr (Miss True i)"
      "i < length (sets c ! unat si)"
      "c' = put_line c (unat si) i
              ((sets c ! unat si ! i)\<lparr>timestamp := n, tagbits := tag, validbit := True,
                 dirtybit := (dirtybit (sets c ! unat si ! i) \<or> op = CHR ''S'')\<rparr>)"
      "r = (if op = CHR ''S'' then res[1 := True, 3 := True] else res[1 := True])"
  | (evict) tag si k where
      "addr_tag c a = Inr tag" "addr_set c a = Inr si" "unat si < length (sets c)"
      "scan_loop (sets c ! unat si) tag (c_E c) 0 0 n = Inr (Miss False k)"
      "k < length (sets c ! unat si)"
      "c' = put_line c (unat si) k
              ((sets c ! unat si ! k)\<lparr>timestamp := n, tagbits := tag,
                 dirtybit := (op = CHR ''S'')\<rparr>)"
      "r = (let r2 = (if dirtybit (sets c ! unat si ! k)
                      then res[1 := True, 2 := True, 4 := True]
                      else res[1 := True, 2 := True])
            in if op = CHR ''S'' then r2[3 := True] else r2)"
proof -
  from assms obtain tag where t: "addr_tag c a = Inr tag"
    by (cases "addr_tag c a") (simp_all add: isInCache_def)
  from assms t obtain si where s: "addr_set c a = Inr si"
    by (cases "addr_set c a") (simp_all add: isInCache_def)
  from assms t s have b: "unat si < length (sets c)"
    by (simp add: isInCache_def split: if_splits)
  from assms t s b obtain sc where sc: "scan_loop (sets c ! unat si) tag (c_E c) 0 0 n = Inr sc"
    by (cases "scan_loop (sets c ! unat si) tag (c_E c) 0 0 n") (simp_all add: isInCache_def)
  show thesis
  proof (cases sc)
    case (Hit i)
    with assms t s b sc show thesis
      by (intro hit [of tag si i]) (auto simp: isInCache_def Let_def dirtybit_same split: if_splits)
  next
    case (Miss notFull k)
    show thesis
    proof (cases notFull)
      case True
      with Miss assms t s b sc show thesis
        by (intro fill [of tag si k]) (auto simp: isInCache_def Let_def dirtybit_same split: if_splits)
    next
      case False
      with Miss assms t s b sc show thesis
        by (intro evict [of tag si k]) (auto simp: isInCache_def Let_def dirtybit_same split: if_splits)
    qed
  qed
qed

lemma isInCache_put_line:
  assumes "isInCache a c op n res = Inr (c', r)"
  obtains si i l where "c' = put_line c si i l" "si < length (sets c)" "i < length (sets c ! si)"
  using assms
proof (cases rule: isInCache_Inr_cases)
  case (hit tag si i)
  from scan_loop_Hit [OF hit(4)] have "i < length (sets c ! unat si)" by simp
  with hit that show ?thesis by blast
next
  case (fill tag si i)
  with that show ?thesis by blast
next
  case (evict tag si k)
  with that show ?thesis by blast
qed

lemma isInCache_fields:
  assumes "isInCache a c op n res = Inr (c', r)"
  shows "c_S c' = c_S c \<and> c_E c' = c_E c \<and> c_B c' = c_B c \<and> c_s c' = c_s c \<and> c_b c' = c_b c \<and>
         length (sets c') = length (sets c)"
  using assms by (rule isInCache_put_line) simp

lemma isInCache_flags:
  assumes "isInCache a c op n (replicate STATNUM False) = Inr (c', r)"
  shows "length r = 5 \<and> (r ! 0 \<longleftrightarrow> \<not> r ! 1) \<and> (r ! 2 \<longrightarrow> r ! 1)"
  using assms
  by (cases rule: isInCache_Inr_cases) (simp_all add: STATNUM_def Let_def)

lemma isInCache_Hit:
  assumes "addr_tag c a = Inr tag" "addr_set c a = Inr si" "unat si < length (sets c)"
    "scan_loop (sets c ! unat si) tag (c_E c) 0 0 n = Inr (Hit i)"
  shows "\<exists>c' r. isInCache a c op n (replicate STATNUM False) = Inr (c', r) \<and> r ! 0 \<and> \<not> r ! 1"
  using assms by (simp add: isInCache_def Let_def STATNUM_def)

lemma isInCache_evicts:
  assumes t: "addr_tag c a = Inr tag" and s: "addr_set c a = Inr si"
    and b: "unat si < length (sets c)"
    and full: "\<forall>j. int j < c_E c \<longrightarrow>
        j < length (sets c ! unat si) \<and> validbit (sets c ! unat si ! j) \<and>
        tagbits (sets c ! unat si ! j) \<noteq> tag"
  shows "\<exists>k. scan_loop (sets c ! unat si) tag (c_E c) 0 0 n = Inr (Miss False k)"
proof -
  let ?ls = "sets c ! unat si"
  from full have "\<forall>j. 0 \<le> j \<and> int j < c_E c \<longrightarrow> j < length ?ls" by simp
  from scan_loop_total [OF this]
  obtain sc where sc: "scan_loop ?ls tag (c_E c) 0 0 n = Inr sc" by blast
  show ?thesis
  proof (cases sc)
    case (Hit i)
    with sc scan_loop_Hit [of ?ls tag "c_E c" 0 0 n i] full show ?thesis by auto
  next
    case (Miss notFull k)
    show ?thesis
    proof (cases notFull)
      case True
      with Miss sc scan_loop_Miss_True [of ?ls tag "c_E c" 0 0 n k] full show ?thesis by auto
    next
      case False
      with Miss sc show ?thesis by simp
    qed
  qed
qed

lemma isInCache_again:
  assumes E: "1 \<le> c_E c" and acc: "isInCache a c op n res = Inr (c1, r1)"
  shows "\<exists>c2 r2. isInCache a c1 op n' (replicate STATNUM False) = Inr (c2, r2) \<and> r2 ! 0 \<and> \<not> r2 ! 1"
proof -
  have main: ?thesis
    if t: "addr_tag c a = Inr tag" and s: "addr_set c a = Inr si"
      and b: "unat si < length (sets c)"
      and c1: "c1 = put_line c (unat si) i l"
      and i: "i < length (sets c ! unat si)" "int i < c_E c"
      and l: "tagbits l = tag" "validbit l"
      and before: "\<forall>j<i. validbit (sets c ! unat si ! j) \<and> tagbits (sets c ! unat si ! j) \<noteq> tag"
    for tag si i l
  proof -
    let ?ls = "(sets c ! unat si)[i := l]"
    from c1 have f: "c_s c1 = c_s c" "c_b c1 = c_b c" "c_E c1 = c_E c" by simp_all
    from c1 b have ls: "sets c1 ! unat si = ?ls" and b1: "unat si < length (sets c1)" by simp_all
    have "scan_loop ?ls tag (c_E c) 0 0 n' = Inr (Hit i)"
      by (rule scan_loop_finds) (use i l before in simp_all)
    with ls f have "scan_loop (sets c1 ! unat si) tag (c_E c1) 0 0 n' = Inr (Hit i)" by simp
    moreover from t s addr_same_fields [OF f(1,2)]
    have "addr_tag c1 a = Inr tag" "addr_set c1 a = Inr si" by simp_all
    ultimately show ?thesis using b1 by (intro isInCache_Hit)
  qed
  from acc show ?thesis
  proof (cases rule: isInCache_Inr_cases)
    case (hit tag si i)
    from scan_loop_Hit [OF hit(4)] show ?thesis
      by (intro main [OF hit(1,2,3,5)]) simp_all
  next
    case (fill tag si i)
    from scan_loop_Miss_True [OF fill(4)] show ?thesis
      by (intro main [OF fill(1,2,3,6)]) simp_all
  next
    case (evict tag si k)
    from scan_loop_Miss_False_index [OF evict(4)] E have k: "int k < c_E c" by auto
    with scan_loop_Miss_False_all [OF evict(4)]
    have "\<forall>j<k. validbit (sets c ! unat si ! j) \<and> tagbits (sets c ! unat si ! j) \<noteq> tag"
      and "validbit (sets c ! unat si ! k)" by auto
    with k evict(5) show ?thesis
      by (intro main [OF evict(1,2,3,6)]) simp_all
  qed
qed

section \<open>Preservation of the invariants\<close>

lemma prefix_validD:
  "prefix_valid ls \<Longrightarrow> i < length ls \<Longrightarrow> validbit (ls ! i) \<Longrightarrow> j < i \<Longrightarrow> validbit (ls ! j)"
  unfolding prefix_valid_def by blast

lemma distinct_tagsD:
  "distinct_tags ls \<Longrightarrow> i < length ls \<Longrightarrow> j < length ls \<Longrightarrow> validbit (ls ! i) \<Longrightarrow>
   validbit (ls ! j) \<Longrightarrow> tagbits (ls ! i) = tagbits (ls ! j) \<Longrightarrow> i = j"
  unfolding distinct_tags_def by blast

lemma prefix_valid_hit:
  assumes "prefix_valid ls" "i < length ls" "validbit l = validbit (ls ! i)"
  shows "prefix_valid (ls[i := l])"
proof -
  have eq: "validbit (ls[i := l] ! j) = validbit (ls ! j)" if "j < length ls" for j
    using assms that by (cases "j = i") simp_all
  show ?thesis
    unfolding prefix_valid_def
  proof (intro allI impI)
    fix p q
    assume p: "p < length (ls[i := l])" and v: "validbit (ls[i := l] ! p)" and q: "q < p"
    from p q have pl: "p < length ls" and ql: "q < length ls" by simp_all
    from v eq [OF pl] have "validbit (ls ! p)" by simp
    from prefix_validD [OF assms(1) pl this q] eq [OF ql]
    show "validbit (ls[i := l] ! q)" by simp
  qed
qed

lemma prefix_valid_fill:
  assumes "prefix_valid ls" "i < length ls" "\<forall>j<i. validbit (ls ! j)" "validbit l"
  shows "prefix_valid (ls[i := l])"
  unfolding prefix_valid_def
proof (intro allI impI)
  fix p q
  assume p: "p < length (ls[i := l])" and v: "validbit (ls[i := l] ! p)" and q: "q < p"
  from p q have pl: "p < length ls" and ql: "q < length ls" by simp_all
  consider "q = i" | "q < i" | "i < q" by (metis linorder_neqE_nat)
  then show "validbit (ls[i := l] ! q)"
  proof cases
    case 1 with assms(2,4) show ?thesis by simp
  next
    case 2 with assms(3) ql show ?thesis by simp
  next
    case 3
    with q have "p \<noteq> i" "q \<noteq> i" by simp_all
    with v pl have "validbit (ls ! p)" by simp
    from prefix_validD [OF assms(1) pl this q] \<open>q \<noteq> i\<close> show ?thesis by simp
  qed
qed

lemma distinct_tags_hit:
  assumes "distinct_tags ls" "i < length ls" "validbit l = validbit (ls ! i)" "tagbits l = tagbits (ls ! i)"
  shows "distinct_tags (ls[i := l])"
proof -
  have eq: "validbit (ls[i := l] ! j) = validbit (ls ! j) \<and> tagbits (ls[i := l] ! j) = tagbits (ls ! j)"
    if "j < length ls" for j
    using assms that by (cases "j = i") simp_all
  show ?thesis
    unfolding distinct_tags_def
  proof (intro allI impI)
    fix p q
    assume p: "p < length (ls[i := l])" and q: "q < length (ls[i := l])"
      and h: "validbit (ls[i := l] ! p) \<and> validbit (ls[i := l] ! q) \<and>
              tagbits (ls[i := l] ! p) = tagbits (ls[i := l] ! q)"
    from p q have pl: "p < length ls" and ql: "q < length ls" by simp_all
    from h eq [OF pl] eq [OF ql]
    have "validbit (ls ! p)" "validbit (ls ! q)" "tagbits (ls ! p) = tagbits (ls ! q)" by simp_all
    with distinct_tagsD [OF assms(1) pl ql] show "p = q" by simp
  qed
qed

lemma distinct_tags_fill:
  assumes "distinct_tags ls" "prefix_valid ls" "i < length ls" "\<not> validbit (ls ! i)"
    "\<forall>j<i. tagbits (ls ! j) \<noteq> tagbits l"
  shows "distinct_tags (ls[i := l])"
proof -
  have later: "\<not> validbit (ls ! j)" if "i < j" "j < length ls" for j
    using prefix_validD [OF assms(2) that(2) _ that(1)] assms(4) by blast
  show ?thesis
    unfolding distinct_tags_def
  proof (intro allI impI)
    fix p q
    assume p: "p < length (ls[i := l])" and q: "q < length (ls[i := l])"
      and h: "validbit (ls[i := l] ! p) \<and> validbit (ls[i := l] ! q) \<and>
              tagbits (ls[i := l] ! p) = tagbits (ls[i := l] ! q)"
    consider "p = i" "q = i" | "p = i" "q \<noteq> i" | "p \<noteq> i" "q = i" | "p \<noteq> i" "q \<noteq> i" by blast
    then show "p = q"
    proof cases
      case 1 then show ?thesis by simp
    next
      case 2
      with h p q assms(3) have "validbit (ls ! q)" "tagbits l = tagbits (ls ! q)" by simp_all
      moreover from q have ql: "q < length ls" by simp
      moreover from 2 have "q < i \<or> i < q" by auto
      ultimately show ?thesis using later [of q] assms(5) by auto
    next
      case 3
      with h p q assms(3) have "validbit (ls ! p)" "tagbits l = tagbits (ls ! p)" by simp_all
      moreover from p have pl: "p < length ls" by simp
      moreover from 3 have "p < i \<or> i < p" by auto
      ultimately show ?thesis using later [of p] assms(5) by auto
    next
      case 4
      with h p q assms(1) show ?thesis unfolding distinct_tags_def by simp
    qed
  qed
qed

lemma distinct_tags_evict:
  assumes "distinct_tags ls" "k < length ls" "\<forall>j<length ls. tagbits (ls ! j) \<noteq> tagbits l"
  shows "distinct_tags (ls[k := l])"
  unfolding distinct_tags_def
proof (intro allI impI)
  fix p q
  assume p: "p < length (ls[k := l])" and q: "q < length (ls[k := l])"
    and h: "validbit (ls[k := l] ! p) \<and> validbit (ls[k := l] ! q) \<and>
            tagbits (ls[k := l] ! p) = tagbits (ls[k := l] ! q)"
  consider "p = k" "q = k" | "p = k" "q \<noteq> k" | "p \<noteq> k" "q = k" | "p \<noteq> k" "q \<noteq> k" by blast
  then show "p = q"
  proof cases
    case 1 then show ?thesis by simp
  next
    case 2
    with h p q assms(2) have "tagbits (ls ! q) = tagbits l" "q < length ls" by simp_all
    with assms(3) show ?thesis by blast
  next
    case 3
    with h p q assms(2) have "tagbits (ls ! p) = tagbits l" "p < length ls" by simp_all
    with assms(3) show ?thesis by blast
  next
    case 4
    with h p q assms(1) show ?thesis unfolding distinct_tags_def by simp
  qed
qed

lemma clean_invalid_update:
  assumes "clean_invalid ls" "i < length ls" "validbit l \<or> \<not> dirtybit l"
  shows "clean_invalid (ls[i := l])"
  unfolding clean_invalid_def
proof (intro allI impI)
  fix p
  assume p: "p < length (ls[i := l])" and v: "\<not> validbit (ls[i := l] ! p)"
  show "\<not> dirtybit (ls[i := l] ! p)"
  proof (cases "p = i")
    case True
    with assms(2,3) v show ?thesis by simp
  next
    case False
    with p v assms(1) show ?thesis unfolding clean_invalid_def by simp
  qed
qed

lemma cache_inv_put:
  assumes "cache_inv c" "si < length (sets c)" "set_inv (c_E c) ((sets c ! si)[i := l])"
  shows "cache_inv (put_line c si i l)"
  unfolding cache_inv_def
proof (intro allI impI)
  fix p assume "p < length (sets (put_line c si i l))"
  then have p: "p < length (sets c)" by simp
  show "set_inv (c_E (put_line c si i l)) (sets (put_line c si i l) ! p)"
  proof (cases "p = si")
    case True
    with assms(2,3) show ?thesis by simp
  next
    case False
    with p assms(1) show ?thesis unfolding cache_inv_def by simp
  qed
qed

lemma cache_inv_step:
  assumes inv: "cache_inv c" and acc: "isInCache a c op n res = Inr (c', r)"
  shows "cache_inv c'"
  using acc
proof (cases rule: isInCache_Inr_cases)
  case (hit tag si i)
  let ?ls = "sets c ! unat si"
  let ?l = "(?ls ! i)\<lparr>timestamp := n, dirtybit := (dirtybit (?ls ! i) \<or> op = CHR ''S'')\<rparr>"
  from inv hit(3) have si: "set_inv (c_E c) ?ls" unfolding cache_inv_def by simp
  from scan_loop_Hit [OF hit(4)] have i: "i < length ?ls" and v: "validbit (?ls ! i)" by simp_all
  have "set_inv (c_E c) (?ls[i := ?l])"
    using si i v unfolding set_inv_def
    by (simp add: prefix_valid_hit distinct_tags_hit clean_invalid_update)
  with inv hit(3) show ?thesis unfolding hit(5) by (rule cache_inv_put)
next
  case (fill tag si i)
  let ?ls = "sets c ! unat si"
  let ?l = "(?ls ! i)\<lparr>timestamp := n, tagbits := tag, validbit := True,
              dirtybit := (dirtybit (?ls ! i) \<or> op = CHR ''S'')\<rparr>"
  from inv fill(3) have si: "set_inv (c_E c) ?ls" unfolding cache_inv_def by simp
  from scan_loop_Miss_True [OF fill(4)]
  have i: "i < length ?ls" and v: "\<not> validbit (?ls ! i)"
    and b: "\<forall>j<i. validbit (?ls ! j)" "\<forall>j<i. tagbits (?ls ! j) \<noteq> tagbits ?l" by simp_all
  have "set_inv (c_E c) (?ls[i := ?l])"
    using si i v b unfolding set_inv_def
    by (simp add: prefix_valid_fill distinct_tags_fill clean_invalid_update)
  with inv fill(3) show ?thesis unfolding fill(6) by (rule cache_inv_put)
next
  case (evict tag si k)
  let ?ls = "sets c ! unat si"
  let ?l = "(?ls ! k)\<lparr>timestamp := n, tagbits := tag, dirtybit := (op = CHR ''S'')\<rparr>"
  from inv evict(3) have si: "set_inv (c_E c) ?ls" unfolding cache_inv_def by simp
  then have len: "length ?ls = nat (c_E c)" unfolding set_inv_def by simp
  have all: "validbit (?ls ! j) \<and> tagbits (?ls ! j) \<noteq> tag" if "j < length ?ls" for j
  proof -
    from that len have "int j < c_E c" by simp
    with scan_loop_Miss_False_all [OF evict(4)] show ?thesis by simp
  qed
  from evict(5) all have v: "validbit (?ls ! k)" by simp
  from all have b: "\<forall>j<length ?ls. tagbits (?ls ! j) \<noteq> tagbits ?l" by simp
  have "set_inv (c_E c) (?ls[k := ?l])"
    using si evict(5) v b unfolding set_inv_def
    by (simp add: prefix_valid_hit distinct_tags_evict clean_invalid_update)
  with inv evict(3) show ?thesis unfolding evict(6) by (rule cache_inv_put)
qed

lemma set_inv_init: "set_inv E (replicate (nat E) init_line)"
  by (simp add: set_inv_def prefix_valid_def distinct_tags_def clean_invalid_def init_line_def)

lemma cache_inv_makeCache: "cache_inv (makeCache g)"
  by (simp add: cache_inv_def makeCache_def set_inv_init)

lemma reachable_inv: "reachable g c \<Longrightarrow> cache_inv c"
  by (induction rule: reachable.induct) (auto intro: cache_inv_makeCache cache_inv_step)

lemma miss_means_absent:
  assumes inv: "cache_inv c" and si: "si < length (sets c)"
    and sc: "scan_loop (sets c ! si) tag (c_E c) 0 0 n = Inr (Miss notFull k)"
    and j: "j < length (sets c ! si)" "validbit (sets c ! si ! j)"
  shows "tagbits (sets c ! si ! j) \<noteq> tag"
proof -
  let ?ls = "sets c ! si"
  from inv si have len: "length ?ls = nat (c_E c)" and pv: "prefix_valid ?ls"
    unfolding cache_inv_def set_inv_def by simp_all
  show ?thesis
  proof (cases notFull)
    case True
    with sc scan_loop_Miss_True [of ?ls tag "c_E c" 0 0 n k]
    have k: "k < length ?ls" "\<not> validbit (?ls ! k)"
      and b: "\<forall>j<k. tagbits (?ls ! j) \<noteq> tag" by simp_all
    have "j < k"
    proof (rule ccontr)
      assume "\<not> j < k"
      then have "j = k \<or> k < j" by auto
      with k(2) j prefix_validD [OF pv j(1) j(2), of k] show False by auto
    qed
    with b show ?thesis by simp
  next
    case False
    from j(1) len have "int j < c_E c" by simp
    with False sc scan_loop_Miss_False_all [of ?ls tag "c_E c" 0 0 n k] show ?thesis by simp
  qed
qed

text \<open>
  Each access stamps the line it touches with the current time.
\<close>

lemma stamps_below_put:
  assumes "stamps_below n c" "timestamp l = n"
  shows "stamps_below (n + 1) (put_line c si i l)"
  unfolding stamps_below_def
proof (intro allI impI)
  fix p q
  assume p: "p < length (sets (put_line c si i l))"
    and q: "q < length (sets (put_line c si i l) ! p)"
    and v: "validbit (sets (put_line c si i l) ! p ! q)"
  from p have pl: "p < length (sets c)" by simp
  show "timestamp (sets (put_line c si i l) ! p ! q) < n + 1"
  proof (cases "p = si \<and> q = i")
    case True
    with pl q assms(2) show ?thesis by simp
  next
    case False
    have same: "sets (put_line c si i l) ! p ! q = sets c ! p ! q"
    proof (cases "p = si")
      case True
      with False pl show ?thesis by simp
    next
      case False
      with pl show ?thesis by simp
    qed
    from q pl have ql: "q < length (sets c ! p)" by (cases "p = si") simp_all
    from assms(1) pl ql v same have "timestamp (sets c ! p ! q) < n"
      unfolding stamps_below_def by simp
    with same show ?thesis by simp
  qed
qed

lemma stamps_below_step:
  assumes "stamps_below n c" "isInCache a c op n res = Inr (c', r)"
  shows "stamps_below (n + 1) c'"
  using assms(2)
  by (cases rule: isInCache_Inr_cases) (simp_all add: stamps_below_put [OF assms(1)])

lemma stamps_below_makeCache: "stamps_below n (makeCache g)"
  by (simp add: stamps_below_def init_line_def)

section \<open>Counting dirty lines\<close>

lemma count_dirty_set_update:
  "i < length ls \<Longrightarrow>
   int (count_dirty_set (ls[i := l])) =
     int (count_dirty_set ls) - of_bool (validbit (ls ! i) \<and> dirtybit (ls ! i))
       + of_bool (validbit l \<and> dirtybit l)"
proof (induction ls arbitrary: i)
  case Nil
  then show ?case by simp
next
  case (Cons x xs)
  show ?case
  proof (cases i)
    case 0
    then show ?thesis by (simp add: count_dirty_set_def)
  next
    case (Suc k)
    with Cons.prems have "k < length xs" by simp
    from Cons.IH [OF this] Suc show ?thesis by (simp add: count_dirty_set_def)
  qed
qed

lemma sum_list_map_update:
  fixes f :: "'a \<Rightarrow> nat"
  shows "i < length xs \<Longrightarrow>
   int (sum_list (map f (xs[i := y]))) = int (sum_list (map f xs)) - int (f (xs ! i)) + int (f y)"
proof (induction xs arbitrary: i)
  case Nil
  then show ?case by simp
next
  case (Cons x xs)
  show ?case
  proof (cases i)
    case 0
    then show ?thesis by simp
  next
    case (Suc k)
    with Cons.prems have "k < length xs" by simp
    from Cons.IH [OF this] Suc show ?thesis by simp
  qed
qed

lemma count_dirty_put_line:
  assumes "si < length (sets c)" "i < length (sets c ! si)"
  shows "int (count_dirty (put_line c si i l)) =
           int (count_dirty c)
             - of_bool (validbit (sets c ! si ! i) \<and> dirtybit (sets c ! si ! i))
             + of_bool (validbit l \<and> dirtybit l)"
  using sum_list_map_update [OF assms(1), of count_dirty_set "(sets c ! si)[i := l]"]
    count_dirty_set_update [OF assms(2), of l]
  by (simp add: count_dirty_def)

lemma count_dirty_makeCache: "count_dirty (makeCache g) = 0"
  by (simp add: count_dirty_def makeCache_def count_dirty_set_def init_line_def)

lemma isInCache_count_dirty:
  assumes inv: "cache_inv c" and acc: "isInCache a c op n (replicate STATNUM False) = Inr (c', r)"
  shows "int (count_dirty c') = int (count_dirty c) + of_bool (r ! 3) - of_bool (r ! 4)"
  using acc
proof (cases rule: isInCache_Inr_cases)
  case (hit tag si i)
  from scan_loop_Hit [OF hit(4)]
  have i: "i < length (sets c ! unat si)" and v: "validbit (sets c ! unat si ! i)" by simp_all
  from hit(6) have "r ! 3 = (op = CHR ''S'' \<and> \<not> dirtybit (sets c ! unat si ! i))" "\<not> r ! 4"
    by (simp_all add: STATNUM_def)
  with count_dirty_put_line [OF hit(3) i] v show ?thesis
    unfolding hit(5) by auto
next
  case (fill tag si i)
  from scan_loop_Miss_True [OF fill(4)] have v: "\<not> validbit (sets c ! unat si ! i)" by simp
  from inv fill(3) have "clean_invalid (sets c ! unat si)"
    unfolding cache_inv_def set_inv_def by simp
  with v fill(5) have d: "\<not> dirtybit (sets c ! unat si ! i)"
    unfolding clean_invalid_def by simp
  from fill(7) have "r ! 3 = (op = CHR ''S'')" "\<not> r ! 4"
    by (simp_all add: STATNUM_def)
  with count_dirty_put_line [OF fill(3) fill(5)] v d show ?thesis
    unfolding fill(6) by auto
next
  case (evict tag si k)
  from inv evict(3) have "length (sets c ! unat si) = nat (c_E c)"
    unfolding cache_inv_def set_inv_def by simp
  with evict(5) have "int k < c_E c" by simp
  with scan_loop_Miss_False_all [OF evict(4)] have v: "validbit (sets c ! unat si ! k)" by simp
  from evict(7) have "r ! 3 = (op = CHR ''S'')" "r ! 4 = dirtybit (sets c ! unat si ! k)"
    by (simp_all add: STATNUM_def Let_def)
  with count_dirty_put_line [OF evict(3) evict(5)] v show ?thesis
    unfolding evict(6) by auto
qed

lemma fold_outcome_counters:
  "hits (fold_outcome B r st) = hits st + of_bool (r ! 0)"
  "misses (fold_outcome B r st) = misses st + of_bool (r ! 1)"
  "evictions (fold_outcome B r st) = evictions st + of_bool (r ! 2)"
  "dirty_bytes (fold_outcome B r st) = dirty_bytes st + B * of_bool (r ! 3) - B * of_bool (r ! 4)"
  "dirty_evictions (fold_outcome B r st) = dirty_evictions st + B * of_bool (r ! 4)"
  by (simp_all add: fold_outcome_def Let_def)

section \<open>Accesses that are defined\<close>

lemma isInCache_total:
  assumes g: "geometry_ok c" and inv: "cache_inv c"
  shows "\<exists>c' r. isInCache a c op n res = Inr (c', r)"
proof -
  let ?tag = "drop_bit (nat (c_s c + c_b c)) a"
  let ?si = "take_bit (nat (c_s c)) (drop_bit (nat (c_b c)) a)"
  let ?ls = "sets c ! unat ?si"
  from g have t: "addr_tag c a = Inr ?tag"
    by (simp add: geometry_ok_def addr_tag_ok)
  from g have s: "addr_set c a = Inr ?si"
    by (simp add: geometry_ok_def addr_set_ok)
  have "unat ?si < 2 ^ nat (c_s c)"
    by (simp add: unat_set_index)
  with g have b: "unat ?si < length (sets c)" by (simp add: geometry_ok_def)
  with inv have len: "length ?ls = nat (c_E c)" unfolding cache_inv_def set_inv_def by simp
  then have "\<forall>j. 0 \<le> j \<and> int j < c_E c \<longrightarrow> j < length ?ls" by auto
  from scan_loop_total [OF this]
  obtain sc where sc: "scan_loop ?ls ?tag (c_E c) 0 0 n = Inr sc" by blast
  show ?thesis
  proof (cases sc)
    case (Hit i)
    with t s b sc show ?thesis by (simp add: isInCache_def Let_def)
  next
    case (Miss notFull k)
    have k: "k < length ?ls"
    proof (cases notFull)
      case True
      with Miss sc scan_loop_Miss_True [of ?ls ?tag "c_E c" 0 0 n k] show ?thesis by simp
    next
      case False
      with Miss sc scan_loop_Miss_False_index [of ?ls ?tag "c_E c" 0 0 n k]
      have "k = 0 \<or> int k < c_E c" by auto
      with len g show ?thesis by (auto simp: geometry_ok_def)
    qed
    with t s b sc Miss show ?thesis by (simp add: isInCache_def Let_def)
  qed
qed

lemma geometry_ok_step:
  assumes "geometry_ok c" "isInCache a c op n res = Inr (c', r)"
  shows "geometry_ok c'"
  using assms(1) isInCache_fields [OF assms(2)] by (simp add: geometry_ok_def)

lemma isInCache_no_lines:
  assumes "0 \<le> c_s g" "0 \<le> c_b g" "c_s g + c_b g < 64" "c_S g = 2 ^ nat (c_s g)" "c_E g \<le> 0"
  shows "isInCache a (makeCache g) op n res = Inl OutOfBounds"
proof -
  let ?c = "makeCache g"
  let ?si = "take_bit (nat (c_s g)) (drop_bit (nat (c_b g)) a)"
  from assms have t: "addr_tag ?c a = Inr (drop_bit (nat (c_s g + c_b g)) a)"
    using addr_tag_ok [of ?c a] by simp
  from assms have s: "addr_set ?c a = Inr ?si"
    using addr_set_ok [of ?c a] by simp
  have "unat ?si < 2 ^ nat (c_s g)" by (simp add: unat_set_index)
  with assms(4) have b: "unat ?si < length (sets ?c)" by (simp add: nat_power_eq)
  with assms(5) have e: "sets ?c ! unat ?si = []" by simp
  from assms(5) have "scan_loop [] (drop_bit (nat (c_s g + c_b g)) a) (c_E ?c) 0 0 n = Inr (Miss False 0)"
    by (simp add: scan_loop_end)
  with t s b e show ?thesis by (simp add: isInCache_def)
qed

lemma isInCache_wide:
  assumes "64 \<le> c_s c + c_b c"
  shows "isInCache a c op n res = Inl ShiftRange"
  using assms by (simp add: isInCache_def addr_tag_def shr64_def)

section \<open>The replay loop\<close>

lemma loop_Cons_Inr:
  assumes "incrementStats_loop (x # xs) n st c = Inr res"
  obtains c1 r where
    "isInCache (address x) c (instruction x) n (replicate STATNUM False) = Inr (c1, r)"
    "n \<noteq> 2147483647"
    "incrementStats_loop xs (n + 1) (fold_outcome (c_B c1) r st) c1 = Inr res"
proof (cases "isInCache (address x) c (instruction x) n (replicate STATNUM False)")
  case (Inl e)
  with assms show ?thesis by simp
next
  case (Inr p)
  obtain c1 r where p: "p = (c1, r)" by (cases p)
  with Inr assms that show ?thesis by (simp split: if_splits)
qed

lemma loop_single_Inr:
  assumes "incrementStats_loop [x] n st c = Inr (st', c')"
  obtains r where
    "isInCache (address x) c (instruction x) n (replicate STATNUM False) = Inr (c', r)"
    "st' = fold_outcome (c_B c') r st"
  using assms by (rule loop_Cons_Inr) simp

lemma loop_append:
  "incrementStats_loop (xs @ ys) n st c = Inr res \<Longrightarrow>
   \<exists>st1 c1. incrementStats_loop xs n st c = Inr (st1, c1) \<and>
            incrementStats_loop ys (n + int (length xs)) st1 c1 = Inr res"
proof (induction xs arbitrary: n st c)
  case Nil
  then show ?case by simp
next
  case (Cons x xs)
  from Cons.prems have "incrementStats_loop (x # (xs @ ys)) n st c = Inr res" by simp
  then obtain c1 r where
    a: "isInCache (address x) c (instruction x) n (replicate STATNUM False) = Inr (c1, r)"
    and n: "n \<noteq> 2147483647"
    and l: "incrementStats_loop (xs @ ys) (n + 1) (fold_outcome (c_B c1) r st) c1 = Inr res"
    by (rule loop_Cons_Inr)
  from Cons.IH [OF l] a n show ?case by (simp add: add.assoc)
qed

lemma loop_fields:
  "incrementStats_loop xs n st c = Inr (st', c') \<Longrightarrow>
     c_E c' = c_E c \<and> c_s c' = c_s c \<and> c_b c' = c_b c \<and> c_B c' = c_B c"
proof (induction xs arbitrary: n st c)
  case Nil
  then show ?case by simp
next
  case (Cons x xs)
  from Cons.prems obtain c1 r where
    a: "isInCache (address x) c (instruction x) n (replicate STATNUM False) = Inr (c1, r)"
    and l: "incrementStats_loop xs (n + 1) (fold_outcome (c_B c1) r st) c1 = Inr (st', c')"
    by (rule loop_Cons_Inr)
  from isInCache_fields [OF a] Cons.IH [OF l] show ?case by simp
qed

lemma loop_counts:
  "incrementStats_loop xs n st c = Inr (st', c') \<Longrightarrow>
     hits st' + misses st' = hits st + misses st + int (length xs) \<and>
     misses st - evictions st \<le> misses st' - evictions st'"
proof (induction xs arbitrary: n st c)
  case Nil
  then show ?case by simp
next
  case (Cons x xs)
  from Cons.prems obtain c1 r where
    a: "isInCache (address x) c (instruction x) n (replicate STATNUM False) = Inr (c1, r)"
    and l: "incrementStats_loop xs (n + 1) (fold_outcome (c_B c1) r st) c1 = Inr (st', c')"
    by (rule loop_Cons_Inr)
  from isInCache_flags [OF a] Cons.IH [OF l] show ?case
    by (cases "r ! 0"; cases "r ! 1"; cases "r ! 2"; simp add: fold_outcome_counters)
qed

lemma loop_dirty:
  "incrementStats_loop xs n st c = Inr (st', c') \<Longrightarrow> cache_inv c \<Longrightarrow>
     cache_inv c' \<and> c_B c' = c_B c \<and>
     dirty_bytes st' - c_B c * int (count_dirty c') = dirty_bytes st - c_B c * int (count_dirty c)"
proof (induction xs arbitrary: n st c)
  case Nil
  then show ?case by simp
next
  case (Cons x xs)
  from Cons.prems(1) obtain c1 r where
    a: "isInCache (address x) c (instruction x) n (replicate STATNUM False) = Inr (c1, r)"
    and l: "incrementStats_loop xs (n + 1) (fold_outcome (c_B c1) r st) c1 = Inr (st', c')"
    by (rule loop_Cons_Inr)
  from cache_inv_step [OF Cons.prems(2) a] have inv1: "cache_inv c1" .
  from isInCache_fields [OF a] have B: "c_B c1 = c_B c" by simp
  from isInCache_count_dirty [OF Cons.prems(2) a]
  have cnt: "int (count_dirty c1) = int (count_dirty c) + of_bool (r ! 3) - of_bool (r ! 4)" .
  from Cons.IH [OF l inv1] B
  have "cache_inv c'" "c_B c' = c_B c"
    "dirty_bytes st' - c_B c * int (count_dirty c') =
       dirty_bytes (fold_outcome (c_B c) r st) - c_B c * int (count_dirty c1)" by simp_all
  then show ?case
    by (simp add: fold_outcome_counters cnt algebra_simps)
qed

lemma loop_stamps:
  "incrementStats_loop xs n st c = Inr (st', c') \<Longrightarrow> stamps_below n c \<Longrightarrow>
   stamps_below (n + int (length xs)) c'"
proof (induction xs arbitrary: n st c)
  case Nil
  then show ?case by simp
next
  case (Cons x xs)
  from Cons.prems(1) obtain c1 r where
    a: "isInCache (address x) c (instruction x) n (replicate STATNUM False) = Inr (c1, r)"
    and l: "incrementStats_loop xs (n + 1) (fold_outcome (c_B c1) r st) c1 = Inr (st', c')"
    by (rule loop_Cons_Inr)
  have "n + 1 + int (length xs) = n + int (length (x # xs))" by simp
  with Cons.IH [OF l stamps_below_step [OF Cons.prems(2) a]] show ?case
    by (simp only:)
qed

lemma loop_total:
  "geometry_ok c \<Longrightarrow> cache_inv c \<Longrightarrow> n + int (length xs) \<le> 2147483647 \<Longrightarrow>
   \<exists>res. incrementStats_loop xs n st c = Inr res"
proof (induction xs arbitrary: n st c)
  case Nil
  then show ?case by simp
next
  case (Cons x xs)
  from isInCache_total [OF Cons.prems(1,2)]
  obtain c1 r where
    a: "isInCache (address x) c (instruction x) n (replicate STATNUM False) = Inr (c1, r)"
    by blast
  from Cons.prems(3) have n: "n \<noteq> 2147483647" "n + 1 + int (length xs) \<le> 2147483647" by simp_all
  from Cons.IH [OF geometry_ok_step [OF Cons.prems(1) a] cache_inv_step [OF Cons.prems(2) a] n(2)]
  obtain res where "incrementStats_loop xs (n + 1) (fold_outcome (c_B c1) r st) c1 = Inr res"
    by blast
  with a n(1) show ?case by simp
qed

lemma loop_repeat:
  assumes E: "1 \<le> c_E c"
    and same: "instruction y = instruction x" "address y = address x"
    and run: "incrementStats_loop (pre @ [x, y]) n st c = Inr (st2, c2)"
  shows "\<exists>st1 c1. incrementStats_loop (pre @ [x]) n st c = Inr (st1, c1) \<and>
           hits st2 = hits st1 + 1 \<and> misses st2 = misses st1"
proof -
  from run have "incrementStats_loop ((pre @ [x]) @ [y]) n st c = Inr (st2, c2)" by simp
  from loop_append [OF this] obtain st1 c1 where
    r1: "incrementStats_loop (pre @ [x]) n st c = Inr (st1, c1)"
    and ry: "incrementStats_loop [y] (n + int (length (pre @ [x]))) st1 c1 = Inr (st2, c2)"
    by blast
  from loop_append [OF r1] obtain st0 c0 where
    r0: "incrementStats_loop pre n st c = Inr (st0, c0)"
    and rx: "incrementStats_loop [x] (n + int (length pre)) st0 c0 = Inr (st1, c1)"
    by blast
  from rx obtain r where
    ax: "isInCache (address x) c0 (instruction x) (n + int (length pre))
           (replicate STATNUM False) = Inr (c1, r)"
    by (rule loop_single_Inr)
  from loop_fields [OF r0] E have E0: "1 \<le> c_E c0" by simp
  from isInCache_again [OF E0 ax, of "n + int (length (pre @ [x]))"]
  obtain c2' r2 where
    ay: "isInCache (address x) c1 (instruction x) (n + int (length (pre @ [x])))
           (replicate STATNUM False) = Inr (c2', r2)"
    and h: "r2 ! 0" "\<not> r2 ! 1"
    by blast
  from ry obtain r' where
    "isInCache (address y) c1 (instruction y) (n + int (length (pre @ [x])))
           (replicate STATNUM False) = Inr (c2, r')"
    and st2: "st2 = fold_outcome (c_B c2) r' st1"
    by (rule loop_single_Inr)
  with ay same have "r' = r2" by simp
  with st2 h have "hits st2 = hits st1 + 1" "misses st2 = misses st1"
    by (simp_all add: fold_outcome_counters)
  with r1 show ?thesis by blast
qed

lemma loop_same_accesses:
  "map (\<lambda>r. (instruction r, address r)) xs = map (\<lambda>r. (instruction r, address r)) ys \<Longrightarrow>
   incrementStats_loop xs n st c = incrementStats_loop ys n st c"
proof (induction xs arbitrary: ys n st c)
  case Nil
  then show ?case by simp
next
  case (Cons x xs)
  then obtain y ys' where ys: "ys = y # ys'" by (cases ys) auto
  with Cons.prems have h: "instruction x = instruction y" "address x = address y"
    and t: "map (\<lambda>r. (instruction r, address r)) xs = map (\<lambda>r. (instruction r, address r)) ys'"
    by simp_all
  show ?case
  proof (cases "isInCache (address y) c (instruction y) n (replicate STATNUM False)")
    case (Inl e)
    with h ys show ?thesis by simp
  next
    case (Inr p)
    obtain c1 r where "p = (c1, r)" by (cases p)
    with Inr h ys Cons.IH [OF t] show ?thesis by simp
  qed
qed

section \<open>The program\<close>

lemma main_cache_Inr:
  assumes "main_cache s E b = Inr c"
  shows "0 \<le> s \<and> s \<le> 30 \<and> 0 \<le> b \<and> b \<le> 30 \<and>
         c = makeCache \<lparr>c_S = 2 ^ nat s, c_E = E, c_B = 2 ^ nat b, c_s = s, c_b = b, sets = []\<rparr>"
  using assms by (auto simp: main_cache_def shl1_def split: if_splits)

lemma main_cache_ok:
  assumes "0 \<le> s" "s \<le> 30" "0 \<le> b" "b \<le> 30"
  shows "main_cache s E b =
           Inr (makeCache \<lparr>c_S = 2 ^ nat s, c_E = E, c_B = 2 ^ nat b, c_s = s, c_b = b, sets = []\<rparr>)"
  using assms by (simp add: main_cache_def shl1_def)

lemma geometry_ok_main:
  assumes "0 \<le> s" "s \<le> 30" "0 \<le> b" "b \<le> 30" "1 \<le> E"
  shows "geometry_ok (makeCache \<lparr>c_S = 2 ^ nat s, c_E = E, c_B = 2 ^ nat b, c_s = s, c_b = b, sets = []\<rparr>)"
  using assms by (simp add: geometry_ok_def)

lemma csim_main_Inr:
  assumes "csim_main s E b trace = Inr st"
  obtains c0 c1 where "main_cache s E b = Inr c0"
    "incrementStats_loop trace 0 zero_stats c0 = Inr (st, c1)"
proof (cases "main_cache s E b")
  case (Inl e)
  with assms show ?thesis by (simp add: csim_main_def)
next
  case (Inr c0)
  show ?thesis
  proof (cases "incrementStats_loop trace 0 zero_stats c0")
    case (Inl e)
    with Inr assms show ?thesis by (simp add: csim_main_def incrementStats_def)
  next
    case r: (Inr p)
    obtain st1 c1 where "p = (st1, c1)" by (cases p)
    with Inr r assms that show ?thesis by (simp add: csim_main_def incrementStats_def)
  qed
qed

lemma csim_main_counts:
  assumes "csim_main s E b trace = Inr st"
  shows "hits st + misses st = int (length trace) \<and> evictions st \<le> misses st"
proof -
  from assms obtain c0 c1 where "incrementStats_loop trace 0 zero_stats c0 = Inr (st, c1)"
    by (rule csim_main_Inr)
  from loop_counts [OF this] show ?thesis by (simp add: zero_stats_def)
qed

lemma csim_main_total:
  assumes "0 \<le> s" "s \<le> 30" "0 \<le> b" "b \<le> 30" "1 \<le> E" "length trace \<le> 2147483647"
  shows "\<exists>st. csim_main s E b trace = Inr st"
proof -
  let ?c0 = "makeCache \<lparr>c_S = 2 ^ nat s, c_E = E, c_B = 2 ^ nat b, c_s = s, c_b = b, sets = []\<rparr>"
  from assms have mc: "main_cache s E b = Inr ?c0" by (simp add: main_cache_ok)
  from assms have ok: "geometry_ok ?c0" by (simp add: geometry_ok_main)
  from assms have len: "0 + int (length trace) \<le> 2147483647" by simp
  from loop_total [OF ok cache_inv_makeCache len, of zero_stats]
  obtain res where "incrementStats_loop trace 0 zero_stats ?c0 = Inr res" by blast
  with mc show ?thesis
    by (cases res) (simp add: csim_main_def incrementStats_def)
qed

lemma two_way_filled_reachable: "reachable two_way_geometry two_way_filled"
proof -
  have 1: "isInCache 0 (makeCache two_way_geometry) (CHR ''S'') 0 (replicate STATNUM False) =
      Inr (\<lparr>c_S = 1, c_E = 2, c_B = 8, c_s = 0, c_b = 3,
            sets = [[\<lparr>validbit = True, tagbits = 0, dirtybit = True, timestamp = 0\<rparr>,
                     init_line]]\<rparr>, [False, True, False, True, False])"
    by code_simp
  have 2: "isInCache 8 \<lparr>c_S = 1, c_E = 2, c_B = 8, c_s = 0, c_b = 3,
            sets = [[\<lparr>validbit = True, tagbits = 0, dirtybit = True, timestamp = 0\<rparr>,
                     init_line]]\<rparr> (CHR ''L'') 1 (replicate STATNUM False) =
      Inr (two_way_filled, [False, True, False, False, False])"
    by code_simp
  from reachable.step [OF reachable.step [OF reachable.init 1] 2] show ?thesis .
qed

subsection \<open>The state of a replay\<close>

text \<open>
  A miss in a full set, at any time \<open>num\<close> above the timestamp of at least one line,
  replaces the first line of least timestamp. The scan starts from \<open>oldest = num\<close> and
  \<open>index = 0\<close> and moves only to lines strictly older than \<open>oldest\<close>.
\<close>

lemma isInCache_evicts_oldest:
  assumes t: "addr_tag c a = Inr tag" and s: "addr_set c a = Inr si"
    and b: "unat si < length (sets c)"
    and len: "length (sets c ! unat si) = nat (c_E c)"
    and allv: "\<forall>l\<in>set (sets c ! unat si). validbit l \<and> tagbits l \<noteq> tag"
    and older: "\<exists>l\<in>set (sets c ! unat si). timestamp l < num"
  shows "\<exists>k r. k < length (sets c ! unat si) \<and>
         (\<forall>j<length (sets c ! unat si).
            timestamp (sets c ! unat si ! k) \<le> timestamp (sets c ! unat si ! j)) \<and>
         (\<forall>j<k. timestamp (sets c ! unat si ! k) < timestamp (sets c ! unat si ! j)) \<and>
         isInCache a c op num (replicate STATNUM False) =
           Inr (put_line c (unat si) k
                  ((sets c ! unat si ! k)\<lparr>timestamp := num, tagbits := tag,
                     dirtybit := (op = CHR ''S'')\<rparr>), r) \<and>
         validbit (sets c ! unat si ! k) \<and>
         \<not> r ! 0 \<and> r ! 1 \<and> r ! 2 \<and> r ! 3 = (op = CHR ''S'') \<and>
         r ! 4 = dirtybit (sets c ! unat si ! k)"
proof -
  let ?ls = "sets c ! unat si"
  have full: "\<forall>j. int j < c_E c \<longrightarrow> j < length ?ls \<and> validbit (?ls ! j) \<and> tagbits (?ls ! j) \<noteq> tag"
    using len allv by auto
  from isInCache_evicts [OF t s b full]
  obtain k where sc: "scan_loop ?ls tag (c_E c) 0 0 num = Inr (Miss False k)" by blast
  from older obtain j0 where j0: "j0 < length ?ls" "timestamp (?ls ! j0) < num"
    by (auto simp: in_set_conv_nth)
  with len have "int j0 < c_E c" by simp
  with j0 scan_loop_Miss_False_index [OF sc]
  have k: "int k < c_E c"
    and least: "\<forall>j. 0 \<le> j \<and> int j < c_E c \<longrightarrow> timestamp (?ls ! k) \<le> timestamp (?ls ! j)"
    and first: "\<forall>j. 0 \<le> j \<and> j < k \<longrightarrow> timestamp (?ls ! k) < timestamp (?ls ! j)"
    by force+
  from k len have kl: "k < length ?ls" by simp
  with full k have v: "validbit (?ls ! k)" by simp
  have l: "\<forall>j<length ?ls. timestamp (?ls ! k) \<le> timestamp (?ls ! j)"
    using least len by simp
  have f: "\<forall>j<k. timestamp (?ls ! k) < timestamp (?ls ! j)"
    using first by simp
  define r where "r =
     (let r2 = (if dirtybit (?ls ! k)
                then (replicate STATNUM False)[1 := True, 2 := True, 4 := True]
                else (replicate STATNUM False)[1 := True, 2 := True])
      in if op = CHR ''S'' then r2[3 := True] else r2)"
  have acc: "isInCache a c op num (replicate STATNUM False) =
      Inr (put_line c (unat si) k
             ((?ls ! k)\<lparr>timestamp := num, tagbits := tag, dirtybit := (op = CHR ''S'')\<rparr>), r)"
    using t s b sc kl unfolding r_def
    by (auto simp: isInCache_def Let_def dirtybit_same)
  have flags: "\<not> r ! 0" "r ! 1" "r ! 2" "r ! 3 = (op = CHR ''S'')" "r ! 4 = dirtybit (?ls ! k)"
    unfolding r_def by (simp_all add: STATNUM_def Let_def)
  from kl l f acc v flags show ?thesis by blast
qed

text \<open>
  The cache that \<^verbatim>\<open>main\<close> has built and replayed the records \<open>pre\<close> on: its geometry is
  as built, its sets satisfy the invariants, and every valid line was last used before
  the time \<open>length pre\<close> of the next record.
\<close>

lemma loop_geometry_ok:
  "incrementStats_loop xs n st c = Inr (st', c') \<Longrightarrow> geometry_ok c \<Longrightarrow> geometry_ok c'"
proof (induction xs arbitrary: n st c)
  case Nil
  then show ?case by simp
next
  case (Cons x xs)
  from Cons.prems(1) obtain c1 r where
    a: "isInCache (address x) c (instruction x) n (replicate STATNUM False) = Inr (c1, r)"
    and l: "incrementStats_loop xs (n + 1) (fold_outcome (c_B c1) r st) c1 = Inr (st', c')"
    by (rule loop_Cons_Inr)
  from Cons.IH [OF l geometry_ok_step [OF Cons.prems(2) a]] show ?case .
qed

lemma loop_append_Inr:
  "incrementStats_loop xs n st c = Inr (st1, c1) \<Longrightarrow>
   incrementStats_loop (xs @ ys) n st c = incrementStats_loop ys (n + int (length xs)) st1 c1"
proof (induction xs arbitrary: n st c)
  case Nil
  then show ?case by simp
next
  case (Cons x xs)
  from Cons.prems obtain c2 r where
    a: "isInCache (address x) c (instruction x) n (replicate STATNUM False) = Inr (c2, r)"
    and n: "n \<noteq> 2147483647"
    and l: "incrementStats_loop xs (n + 1) (fold_outcome (c_B c2) r st) c2 = Inr (st1, c1)"
    by (rule loop_Cons_Inr)
  from Cons.IH [OF l] a n show ?case by (simp add: add.assoc)
qed

lemma replay_state:
  assumes m: "main_cache s E b = Inr c0"
    and run: "incrementStats pre zero_stats c0 = Inr (st, c)"
    and E: "1 \<le> E"
  shows "geometry_ok c \<and> cache_inv c \<and> stamps_below (int (length pre)) c \<and> c_E c = E"
proof -
  from main_cache_Inr [OF m]
  have g: "0 \<le> s" "s \<le> 30" "0 \<le> b" "b \<le> 30"
    and c0: "c0 = makeCache \<lparr>c_S = 2 ^ nat s, c_E = E, c_B = 2 ^ nat b, c_s = s, c_b = b, sets = []\<rparr>"
    by simp_all
  from geometry_ok_main [OF g E] c0 have ok0: "geometry_ok c0" by simp
  from c0 have inv0: "cache_inv c0" and st0: "stamps_below 0 c0" and E0: "c_E c0 = E"
    by (simp_all add: cache_inv_makeCache stamps_below_makeCache)
  from run have r: "incrementStats_loop pre 0 zero_stats c0 = Inr (st, c)"
    by (simp add: incrementStats_def)
  from loop_geometry_ok [OF r ok0] loop_dirty [OF r inv0] loop_stamps [OF r st0]
    loop_fields [OF r] E0
  show ?thesis by simp
qed

section \<open>The claims\<close>

subsection \<open>C1: a miss in a full set replaces the least recently used line\<close>

text \<open>
  C1. Take a run of \<^verbatim>\<open>main\<close> with \<open>E \<ge> 1\<close> that has replayed the records \<open>pre\<close>, and the
  access that the replay makes next, for a record \<open>x\<close>, at the time \<open>length pre\<close>. If all
  lines of the target set are valid and none of them carries the computed tag, then
  the set has \<open>E\<close> lines and the access replaces line \<open>k\<close> of it, where \<open>k\<close> is the first
  line of least timestamp: the tag and the timestamp of that line become the computed
  tag and the current time, the line stays valid, its dirty bit becomes whether the
  operation is a store, no other line changes, and the flags say miss (1) and eviction
  (2), not hit (0), with flag 4 telling whether the replaced line was dirty. The replay
  of \<open>pre\<close> followed by \<open>x\<close> ends in exactly that cache, with these flags folded into the
  statistics (unless \<open>x\<close> is the record whose number is the largest \<^verbatim>\<open>int\<close>).
\<close>

theorem full_set_miss_evicts_oldest:
  assumes "main_cache s E b = Inr c0"
    and "incrementStats pre zero_stats c0 = Inr (st, c)"
    and "1 \<le> E"
    and "addr_tag c (address x) = Inr tag" and "addr_set c (address x) = Inr si"
    and "\<forall>l\<in>set (sets c ! unat si). validbit l \<and> tagbits l \<noteq> tag"
  shows "\<exists>k r. k < length (sets c ! unat si) \<and> length (sets c ! unat si) = nat E \<and>
         (\<forall>j<length (sets c ! unat si).
            timestamp (sets c ! unat si ! k) \<le> timestamp (sets c ! unat si ! j)) \<and>
         (\<forall>j<k. timestamp (sets c ! unat si ! k) < timestamp (sets c ! unat si ! j)) \<and>
         isInCache (address x) c (instruction x) (int (length pre)) (replicate STATNUM False) =
           Inr (put_line c (unat si) k
                  ((sets c ! unat si ! k)\<lparr>timestamp := int (length pre), tagbits := tag,
                     dirtybit := (instruction x = CHR ''S'')\<rparr>), r) \<and>
         incrementStats (pre @ [x]) zero_stats c0 =
           (if int (length pre) = 2147483647 then Inl IntOverflow
            else Inr (fold_outcome (c_B c) r st,
                      put_line c (unat si) k
                        ((sets c ! unat si ! k)\<lparr>timestamp := int (length pre), tagbits := tag,
                           dirtybit := (instruction x = CHR ''S'')\<rparr>))) \<and>
         validbit (sets c ! unat si ! k) \<and>
         \<not> r ! 0 \<and> r ! 1 \<and> r ! 2 \<and> r ! 3 = (instruction x = CHR ''S'') \<and>
         r ! 4 = dirtybit (sets c ! unat si ! k)"
proof -
  let ?ls = "sets c ! unat si"
  let ?n = "int (length pre)"
  from replay_state [OF assms(1,2,3)]
  have ok: "geometry_ok c" and inv: "cache_inv c" and below: "stamps_below ?n c" and E: "c_E c = E"
    by simp_all
  from ok have g: "0 \<le> c_s c" "0 \<le> c_b c" "c_s c + c_b c \<le> 64"
    and ns: "length (sets c) = 2 ^ nat (c_s c)"
    by (simp_all add: geometry_ok_def)
  from addr_set_ok [OF g, of "address x"] assms(5)
  have "si = take_bit (nat (c_s c)) (drop_bit (nat (c_b c)) (address x))" by simp
  then have "unat si < 2 ^ nat (c_s c)" by (simp add: unat_set_index)
  with ns have b: "unat si < length (sets c)" by simp
  with inv E have len: "length ?ls = nat E" "length ?ls = nat (c_E c)"
    unfolding cache_inv_def set_inv_def by simp_all
  with assms(3) have "0 < length ?ls" by simp
  then have in0: "?ls ! 0 \<in> set ?ls" by simp
  with assms(6) have "validbit (?ls ! 0)" by blast
  with below b \<open>0 < length ?ls\<close> have "timestamp (?ls ! 0) < ?n"
    unfolding stamps_below_def by blast
  with in0 have older: "\<exists>l\<in>set ?ls. timestamp l < ?n" by blast
  from isInCache_evicts_oldest [OF assms(4,5) b len(2) assms(6) older, of "instruction x"]
  obtain k r where kr: "k < length ?ls"
    "\<forall>j<length ?ls. timestamp (?ls ! k) \<le> timestamp (?ls ! j)"
    "\<forall>j<k. timestamp (?ls ! k) < timestamp (?ls ! j)"
    "isInCache (address x) c (instruction x) ?n (replicate STATNUM False) =
       Inr (put_line c (unat si) k
              ((?ls ! k)\<lparr>timestamp := ?n, tagbits := tag,
                 dirtybit := (instruction x = CHR ''S'')\<rparr>), r)"
    "validbit (?ls ! k)"
    "\<not> r ! 0" "r ! 1" "r ! 2" "r ! 3 = (instruction x = CHR ''S'')" "r ! 4 = dirtybit (?ls ! k)"
    by blast
  from assms(2) have "incrementStats_loop pre 0 zero_stats c0 = Inr (st, c)"
    by (simp add: incrementStats_def)
  from loop_append_Inr [OF this, of "[x]"] kr(4)
  have run: "incrementStats (pre @ [x]) zero_stats c0 =
           (if ?n = 2147483647 then Inl IntOverflow
            else Inr (fold_outcome (c_B c) r st,
                      put_line c (unat si) k
                        ((?ls ! k)\<lparr>timestamp := ?n, tagbits := tag,
                           dirtybit := (instruction x = CHR ''S'')\<rparr>)))"
    by (simp add: incrementStats_def)
  from kr len(1) run show ?thesis by blast
qed

text \<open>
  The two-line cache after a store to address 0 and a load from address 8 is full; the
  next record is a load from address 16, of tag 2.
\<close>

theorem full_set_miss_evicts_oldest_witness:
  "\<exists>k r. k < length (sets two_way_filled ! unat (0 :: 64 word)) \<and>
      length (sets two_way_filled ! unat (0 :: 64 word)) = nat 2 \<and>
      (\<forall>j<length (sets two_way_filled ! unat (0 :: 64 word)).
          timestamp (sets two_way_filled ! unat (0 :: 64 word) ! k)
            \<le> timestamp (sets two_way_filled ! unat (0 :: 64 word) ! j)) \<and>
      (\<forall>j<k. timestamp (sets two_way_filled ! unat (0 :: 64 word) ! k)
            < timestamp (sets two_way_filled ! unat (0 :: 64 word) ! j)) \<and>
      isInCache (address load_16) two_way_filled (instruction load_16)
          (int (length [store_0, load_8])) (replicate STATNUM False) =
        Inr (put_line two_way_filled (unat (0 :: 64 word)) k
               ((sets two_way_filled ! unat (0 :: 64 word) ! k)
                  \<lparr>timestamp := int (length [store_0, load_8]), tagbits := 2,
                   dirtybit := (instruction load_16 = CHR ''S'')\<rparr>), r) \<and>
      incrementStats ([store_0, load_8] @ [load_16]) zero_stats (makeCache two_way_geometry) =
        (if int (length [store_0, load_8]) = 2147483647 then Inl IntOverflow
         else Inr (fold_outcome (c_B two_way_filled) r
                     \<lparr>hits = 0, misses = 2, evictions = 0, dirty_bytes = 8, dirty_evictions = 0\<rparr>,
                   put_line two_way_filled (unat (0 :: 64 word)) k
                     ((sets two_way_filled ! unat (0 :: 64 word) ! k)
                        \<lparr>timestamp := int (length [store_0, load_8]), tagbits := 2,
                         dirtybit := (instruction load_16 = CHR ''S'')\<rparr>))) \<and>
      validbit (sets two_way_filled ! unat (0 :: 64 word) ! k) \<and>
      \<not> r ! 0 \<and> r ! 1 \<and> r ! 2 \<and> r ! 3 = (instruction load_16 = CHR ''S'') \<and>
      r ! 4 = dirtybit (sets two_way_filled ! unat (0 :: 64 word) ! k)"
proof -
  have 1: "main_cache 0 2 3 = Inr (makeCache two_way_geometry)" by code_simp
  have 2: "incrementStats [store_0, load_8] zero_stats (makeCache two_way_geometry) =
      Inr (\<lparr>hits = 0, misses = 2, evictions = 0, dirty_bytes = 8, dirty_evictions = 0\<rparr>,
           two_way_filled)"
    by code_simp
  have 3: "(1::int) \<le> 2" by simp
  have 4: "addr_tag two_way_filled (address load_16) = Inr 2" by code_simp
  have 5: "addr_set two_way_filled (address load_16) = Inr 0" by code_simp
  have 6: "\<forall>l\<in>set (sets two_way_filled ! unat (0 :: 64 word)). validbit l \<and> tagbits l \<noteq> 2"
    by (simp add: two_way_filled_def)
  show ?thesis
    by (rule full_set_miss_evicts_oldest [OF 1 2 3 4 5 6])
qed

subsection \<open>C2: tag and set index\<close>

text \<open>
  C2 (as amended). For \<open>s \<ge> 0\<close>, \<open>b \<ge> 0\<close> and \<open>s + b < 64\<close>, and every address, the
  tag is the address shifted right by \<open>s + b\<close>, that is the address divided by
  \<open>2 ^ (s + b)\<close>, and the set index is the address shifted right by \<open>b\<close> taken modulo
  \<open>2 ^ s\<close>; when \<open>s = 0\<close> the set index is 0.
\<close>

theorem address_decomposition:
  assumes "0 \<le> c_s c" and "0 \<le> c_b c" and "c_s c + c_b c < 64"
  shows "addr_tag c a = Inr (drop_bit (nat (c_s c + c_b c)) a) \<and>
         unat (drop_bit (nat (c_s c + c_b c)) a) = unat a div 2 ^ nat (c_s c + c_b c) \<and>
         addr_set c a = Inr (take_bit (nat (c_s c)) (drop_bit (nat (c_b c)) a)) \<and>
         unat (take_bit (nat (c_s c)) (drop_bit (nat (c_b c)) a)) =
           (unat a div 2 ^ nat (c_b c)) mod 2 ^ nat (c_s c) \<and>
         (c_s c = 0 \<longrightarrow> addr_set c a = Inr 0)"
proof -
  have "addr_tag c a = Inr (drop_bit (nat (c_s c + c_b c)) a)"
    using assms by (simp add: addr_tag_ok)
  moreover have "unat (drop_bit (nat (c_s c + c_b c)) a) = unat a div 2 ^ nat (c_s c + c_b c)"
    by (simp only: unat_drop_bit_eq) (simp only: drop_bit_eq_div)
  moreover have "addr_set c a = Inr (take_bit (nat (c_s c)) (drop_bit (nat (c_b c)) a))"
    using assms by (simp add: addr_set_ok)
  moreover have "unat (take_bit (nat (c_s c)) (drop_bit (nat (c_b c)) a)) =
           (unat a div 2 ^ nat (c_b c)) mod 2 ^ nat (c_s c)"
    by (rule unat_set_index)
  moreover have "c_s c = 0 \<longrightarrow> addr_set c a = Inr 0"
    by (simp add: addr_set_def)
  ultimately show ?thesis by blast
qed

text \<open>
  Address \<open>0x1234\<close> with \<open>s = 2\<close> and \<open>b = 3\<close>: tag \<open>0x91\<close>, set 2.
\<close>

theorem address_decomposition_witness:
  "addr_tag four_sets_geometry 0x1234 = Inr 0x91 \<and>
   unat (0x91 :: 64 word) = unat (0x1234 :: 64 word) div 2 ^ 5 \<and>
   addr_set four_sets_geometry 0x1234 = Inr 2 \<and>
   unat (2 :: 64 word) = (unat (0x1234 :: 64 word) div 2 ^ 3) mod 2 ^ 2"
proof -
  have h: "0 \<le> c_s four_sets_geometry" "0 \<le> c_b four_sets_geometry"
    "c_s four_sets_geometry + c_b four_sets_geometry < 64"
    by (simp_all add: four_sets_geometry_def)
  have e: "drop_bit (nat (c_s four_sets_geometry + c_b four_sets_geometry)) (0x1234 :: 64 word) = 0x91"
    "take_bit (nat (c_s four_sets_geometry)) (drop_bit (nat (c_b four_sets_geometry)) (0x1234 :: 64 word)) = 2"
    "nat (c_s four_sets_geometry + c_b four_sets_geometry) = 5"
    "nat (c_b four_sets_geometry) = 3" "nat (c_s four_sets_geometry) = 2"
    by code_simp+
  from address_decomposition [OF h, of "0x1234"] show ?thesis
    unfolding e by simp
qed

text \<open>
  Counterexample to C2 as stated. With \<open>s = 32\<close> and \<open>b = 32\<close> the sum is 64, within
  the claim's bound, and the tag is \<^verbatim>\<open>address >> 64\<close>: a shift of a 64-bit operand by its
  full width, which has no defined result, so the access has none either.
\<close>

theorem tag_shift_by_64_undefined:
  "0 \<le> c_s full_width_geometry \<and> 0 \<le> c_b full_width_geometry \<and>
   c_s full_width_geometry + c_b full_width_geometry \<le> 64 \<and>
   addr_tag full_width_geometry 1 = Inl ShiftRange \<and>
   isInCache 1 full_width_geometry (CHR ''L'') 0 (replicate STATNUM False) = Inl ShiftRange"
  by code_simp

subsection \<open>C3: the dirty bytes are the dirty lines\<close>

text \<open>
  C3. Take a run of \<^verbatim>\<open>main\<close> whose replay of a trace succeeds, and any point of that
  replay, that is any prefix \<open>xs\<close> of the trace. After the records of \<open>xs\<close> have been
  folded into the statistics, \<open>dirty_bytes\<close> is not negative and equals \<open>B\<close> times the
  number of lines of the cache that are valid and dirty, where \<open>B = 2 ^ b\<close>.
\<close>

theorem dirty_bytes_invariant:
  assumes "main_cache s E b = Inr c0"
    and "incrementStats (xs @ ys) zero_stats c0 = Inr res"
  shows "\<exists>st c. incrementStats xs zero_stats c0 = Inr (st, c) \<and>
           0 \<le> dirty_bytes st \<and> c_B c = 2 ^ nat b \<and>
           dirty_bytes st = c_B c * int (count_dirty c)"
proof -
  from main_cache_Inr [OF assms(1)]
  have c0: "c0 = makeCache \<lparr>c_S = 2 ^ nat s, c_E = E, c_B = 2 ^ nat b, c_s = s, c_b = b, sets = []\<rparr>"
    by simp
  then have inv0: "cache_inv c0" and B0: "c_B c0 = 2 ^ nat b" and d0: "count_dirty c0 = 0"
    by (simp_all add: cache_inv_makeCache count_dirty_makeCache)
  from assms(2) loop_append [of xs ys 0 zero_stats c0 res]
  obtain st c where r: "incrementStats_loop xs 0 zero_stats c0 = Inr (st, c)"
    by (auto simp: incrementStats_def)
  from loop_dirty [OF r inv0] B0 d0
  have "c_B c = 2 ^ nat b" "dirty_bytes st = c_B c * int (count_dirty c)"
    by (simp_all add: zero_stats_def)
  moreover from this have "0 \<le> dirty_bytes st" by simp
  ultimately show ?thesis using r by (simp add: incrementStats_def)
qed

text \<open>
  The replay of a store to address 0 and a load from address 8 in a cache of one set of
  two lines, observed after the store.
\<close>

theorem dirty_bytes_invariant_witness:
  "\<exists>st c. incrementStats [store_0] zero_stats (makeCache two_way_geometry) = Inr (st, c) \<and>
      0 \<le> dirty_bytes st \<and> c_B c = 2 ^ nat 3 \<and>
      dirty_bytes st = c_B c * int (count_dirty c)"
proof -
  have 1: "main_cache 0 2 3 = Inr (makeCache two_way_geometry)" by code_simp
  have 2: "incrementStats ([store_0] @ [load_8]) zero_stats (makeCache two_way_geometry) =
      Inr (\<lparr>hits = 0, misses = 2, evictions = 0, dirty_bytes = 8, dirty_evictions = 0\<rparr>,
           two_way_filled)"
    by code_simp
  from dirty_bytes_invariant [OF 1 2] show ?thesis .
qed

subsection \<open>C4: hits, misses and evictions\<close>

text \<open>
  C4. An access called with all flags false, as the replay loop calls it, returns with
  exactly one of the flags hit (0) and miss (1) set, and with the eviction flag (2) set
  only if the miss flag is. Hence the statistics of a run satisfy
  \<open>hits + misses = \<close> the number of records and \<open>evictions \<le> misses\<close>. Such
  statistics exist: for \<open>0 \<le> s \<le> 30\<close>, \<open>0 \<le> b \<le> 30\<close>, \<open>E \<ge> 1\<close> and a trace of at most
  \<open>2 ^ 31 - 1\<close> records the run returns them.
\<close>

theorem flags_and_counters:
  "(isInCache a c op n (replicate STATNUM False) = Inr (c', r) \<longrightarrow>
      (r ! 0 \<longleftrightarrow> \<not> r ! 1) \<and> (r ! 2 \<longrightarrow> r ! 1)) \<and>
   (csim_main s E b trace = Inr st \<longrightarrow>
      hits st + misses st = int (length trace) \<and> evictions st \<le> misses st) \<and>
   (0 \<le> s \<and> s \<le> 30 \<and> 0 \<le> b \<and> b \<le> 30 \<and> 1 \<le> E \<and> length trace \<le> 2147483647 \<longrightarrow>
      (\<exists>st. csim_main s E b trace = Inr st))"
proof -
  have "(r ! 0 \<longleftrightarrow> \<not> r ! 1) \<and> (r ! 2 \<longrightarrow> r ! 1)"
    if "isInCache a c op n (replicate STATNUM False) = Inr (c', r)"
    using isInCache_flags [OF that] by simp
  moreover have "hits st + misses st = int (length trace) \<and> evictions st \<le> misses st"
    if "csim_main s E b trace = Inr st"
    using that by (rule csim_main_counts)
  moreover have "\<exists>st. csim_main s E b trace = Inr st"
    if "0 \<le> s \<and> s \<le> 30 \<and> 0 \<le> b \<and> b \<le> 30 \<and> 1 \<le> E \<and> length trace \<le> 2147483647"
    using that by (intro csim_main_total) simp_all
  ultimately show ?thesis by blast
qed

text \<open>
  A load from address 8 in the empty two-line cache is a miss; the run of a store to
  address 0 and a load from address 8 counts 0 hits and 2 misses.
\<close>

theorem flags_and_counters_witness:
  "isInCache 8 (makeCache two_way_geometry) (CHR ''L'') 0 (replicate STATNUM False) =
     Inr (\<lparr>c_S = 1, c_E = 2, c_B = 8, c_s = 0, c_b = 3,
           sets = [[\<lparr>validbit = True, tagbits = 1, dirtybit = False, timestamp = 0\<rparr>,
                    init_line]]\<rparr>, [False, True, False, False, False]) \<and>
   ([False, True, False, False, False] ! 0 \<longleftrightarrow> \<not> [False, True, False, False, False] ! 1) \<and>
   csim_main 0 2 3 [store_0, load_8] =
     Inr \<lparr>hits = 0, misses = 2, evictions = 0, dirty_bytes = 8, dirty_evictions = 0\<rparr> \<and>
   hits \<lparr>hits = 0, misses = 2, evictions = 0, dirty_bytes = 8, dirty_evictions = 0\<rparr>
     + misses \<lparr>hits = 0, misses = 2, evictions = 0, dirty_bytes = 8, dirty_evictions = 0\<rparr>
     = int (length [store_0, load_8]) \<and>
   evictions \<lparr>hits = 0, misses = 2, evictions = 0, dirty_bytes = 8, dirty_evictions = 0\<rparr>
     \<le> misses \<lparr>hits = 0, misses = 2, evictions = 0, dirty_bytes = 8, dirty_evictions = 0\<rparr> \<and>
   (\<exists>st. csim_main 0 2 3 [store_0, load_8] = Inr st)"
proof -
  have 1: "isInCache 8 (makeCache two_way_geometry) (CHR ''L'') 0 (replicate STATNUM False) =
     Inr (\<lparr>c_S = 1, c_E = 2, c_B = 8, c_s = 0, c_b = 3,
           sets = [[\<lparr>validbit = True, tagbits = 1, dirtybit = False, timestamp = 0\<rparr>,
                    init_line]]\<rparr>, [False, True, False, False, False])"
    by code_simp
  have 2: "csim_main 0 2 3 [store_0, load_8] =
     Inr \<lparr>hits = 0, misses = 2, evictions = 0, dirty_bytes = 8, dirty_evictions = 0\<rparr>"
    by code_simp
  have 3: "(0::int) \<le> 0 \<and> (0::int) \<le> 30 \<and> (0::int) \<le> 3 \<and> (3::int) \<le> 30 \<and> (1::int) \<le> 2 \<and>
      length [store_0, load_8] \<le> 2147483647"
    by simp
  from flags_and_counters [of 8 "makeCache two_way_geometry" "CHR ''L''" 0
      "\<lparr>c_S = 1, c_E = 2, c_B = 8, c_s = 0, c_b = 3,
           sets = [[\<lparr>validbit = True, tagbits = 1, dirtybit = False, timestamp = 0\<rparr>,
                    init_line]]\<rparr>" "[False, True, False, False, False]"
      0 2 3 "[store_0, load_8]"
      "\<lparr>hits = 0, misses = 2, evictions = 0, dirty_bytes = 8, dirty_evictions = 0\<rparr>"]
    1 2 3
  show ?thesis by simp
qed

subsection \<open>C5: geometries that the specification calls invalid\<close>

text \<open>
  C5 (as amended). Construction checks nothing and never fails. With \<open>E = 0\<close> (and
  \<open>s\<close>, \<open>b\<close> between 0 and 30) \<^verbatim>\<open>main\<close> builds a cache of \<open>2 ^ s\<close> sets without lines and
  replays the trace on it: the empty trace yields the all-zero statistics, and for a
  trace with a first record the access operation is called on that cache, finds no
  line to scan and then writes line 0 of a set that has none, outside the storage of
  the set. With \<open>s + b \<ge> 64\<close> \<^verbatim>\<open>makeCache\<close> likewise returns its \<open>S\<close> sets of \<open>E\<close> lines,
  the replay of the empty trace succeeds on them, and the first access shifts the
  address by at least the width of an address, which has no defined result.
\<close>

theorem invalid_geometry_not_rejected:
  "(0 \<le> s \<and> s \<le> 30 \<and> 0 \<le> b \<and> b \<le> 30 \<longrightarrow>
      main_cache s 0 b =
        Inr \<lparr>c_S = 2 ^ nat s, c_E = 0, c_B = 2 ^ nat b, c_s = s, c_b = b,
             sets = replicate (2 ^ nat s) []\<rparr> \<and>
      csim_main s 0 b [] = Inr zero_stats \<and>
      isInCache a \<lparr>c_S = 2 ^ nat s, c_E = 0, c_B = 2 ^ nat b, c_s = s, c_b = b,
                   sets = replicate (2 ^ nat s) []\<rparr> op n res = Inl OutOfBounds \<and>
      csim_main s 0 b (x # xs) = Inl OutOfBounds) \<and>
   (64 \<le> c_s g + c_b g \<longrightarrow>
      sets (makeCache g) = replicate (nat (c_S g)) (replicate (nat (c_E g)) init_line) \<and>
      incrementStats [] zero_stats (makeCache g) = Inr (zero_stats, makeCache g) \<and>
      isInCache a (makeCache g) op n res = Inl ShiftRange \<and>
      incrementStats (x # xs) zero_stats (makeCache g) = Inl ShiftRange)"
proof -
  let ?g = "\<lparr>c_S = 2 ^ nat s, c_E = 0, c_B = 2 ^ nat b, c_s = s, c_b = b, sets = []\<rparr>"
  let ?c = "\<lparr>c_S = 2 ^ nat s, c_E = 0, c_B = 2 ^ nat b, c_s = s, c_b = b,
             sets = replicate (2 ^ nat s) []\<rparr>"
  have mk: "makeCache ?g = ?c" by (simp add: makeCache_def)
  have first: "main_cache s 0 b = Inr ?c \<and> csim_main s 0 b [] = Inr zero_stats \<and>
      isInCache a ?c op n res = Inl OutOfBounds \<and> csim_main s 0 b (x # xs) = Inl OutOfBounds"
    if h: "0 \<le> s \<and> s \<le> 30 \<and> 0 \<le> b \<and> b \<le> 30"
  proof -
    from h have m: "main_cache s 0 b = Inr ?c"
      using main_cache_ok [of s b 0] mk by simp
    from h have oob: "isInCache a' ?c op' n' res' = Inl OutOfBounds" for a' op' n' res'
      using isInCache_no_lines [of ?g a' op' n' res'] mk by simp
    from m oob show ?thesis
      by (simp add: csim_main_def incrementStats_def)
  qed
  have second: "sets (makeCache g) = replicate (nat (c_S g)) (replicate (nat (c_E g)) init_line) \<and>
      incrementStats [] zero_stats (makeCache g) = Inr (zero_stats, makeCache g) \<and>
      isInCache a (makeCache g) op n res = Inl ShiftRange \<and>
      incrementStats (x # xs) zero_stats (makeCache g) = Inl ShiftRange"
    if h: "64 \<le> c_s g + c_b g"
  proof -
    from h have "isInCache a' (makeCache g) op' n' res' = Inl ShiftRange" for a' op' n' res'
      by (intro isInCache_wide) simp
    then show ?thesis by (simp add: incrementStats_def)
  qed
  from first second show ?thesis by blast
qed

text \<open>
  \<open>s = 1\<close>, \<open>E = 0\<close>, \<open>b = 3\<close> with a load from address 8, and \<open>s = b = 32\<close> with the same
  load.
\<close>

theorem invalid_geometry_not_rejected_witness:
  "main_cache 1 0 3 =
     Inr \<lparr>c_S = 2 ^ nat 1, c_E = 0, c_B = 2 ^ nat 3, c_s = 1, c_b = 3,
          sets = replicate (2 ^ nat 1) []\<rparr> \<and>
   csim_main 1 0 3 [] = Inr zero_stats \<and>
   isInCache 8 \<lparr>c_S = 2 ^ nat 1, c_E = 0, c_B = 2 ^ nat 3, c_s = 1, c_b = 3,
                sets = replicate (2 ^ nat 1) []\<rparr> (CHR ''L'') 0 (replicate STATNUM False)
     = Inl OutOfBounds \<and>
   csim_main 1 0 3 [load_8] = Inl OutOfBounds \<and>
   sets (makeCache full_width_geometry) =
     replicate (nat (c_S full_width_geometry)) (replicate (nat (c_E full_width_geometry)) init_line) \<and>
   incrementStats [] zero_stats (makeCache full_width_geometry) =
     Inr (zero_stats, makeCache full_width_geometry) \<and>
   isInCache 8 (makeCache full_width_geometry) (CHR ''L'') 0 (replicate STATNUM False)
     = Inl ShiftRange \<and>
   incrementStats [load_8] zero_stats (makeCache full_width_geometry) = Inl ShiftRange"
proof -
  have 1: "(0::int) \<le> 1 \<and> (1::int) \<le> 30 \<and> (0::int) \<le> 3 \<and> (3::int) \<le> 30" by simp
  have 2: "64 \<le> c_s full_width_geometry + c_b full_width_geometry"
    by (simp add: full_width_geometry_def)
  from invalid_geometry_not_rejected [of 1 3 8 "CHR ''L''" 0 "replicate STATNUM False"
      load_8 "[]" full_width_geometry] 1 2
  show ?thesis by blast
qed

text \<open>
  Counterexample to C5 as stated. With \<open>s = 0\<close>, \<open>E = 0\<close>, \<open>b = 0\<close> the construction
  returns a cache (one set, no line), the replay of the empty trace on it returns
  statistics, and the replay of a single load calls the access operation on it: the
  scan ends at once with \<open>index = 0\<close>, and the write to that line is out of bounds.
\<close>

theorem zero_lines_cache_is_accessed:
  "main_cache 0 0 0 = Inr \<lparr>c_S = 1, c_E = 0, c_B = 1, c_s = 0, c_b = 0, sets = [[]]\<rparr> \<and>
   csim_main 0 0 0 [] = Inr zero_stats \<and>
   scan_loop [] 0 0 0 0 0 = Inr (Miss False 0) \<and>
   isInCache 0 \<lparr>c_S = 1, c_E = 0, c_B = 1, c_s = 0, c_b = 0, sets = [[]]\<rparr> (CHR ''L'') 0
     (replicate STATNUM False) = Inl OutOfBounds \<and>
   csim_main 0 0 0 [load_0] = Inl OutOfBounds"
  by code_simp

subsection \<open>C6: two stores to one line\<close>

text \<open>
  C6. With \<open>E = 1\<close>, \<open>s = 0\<close>, \<open>b = 3\<close> and the trace of a store to address 0 followed by
  a store to address 8 (of any sizes), the run ends with 0 hits, 2 misses, 1 eviction,
  8 dirty bytes evicted and 8 dirty bytes resident.
\<close>

theorem two_stores_one_line:
  "csim_main 0 1 3
     [\<lparr>instruction = CHR ''S'', address = 0, size_acc = sz1\<rparr>,
      \<lparr>instruction = CHR ''S'', address = 8, size_acc = sz2\<rparr>]
   = Inr \<lparr>hits = 0, misses = 2, evictions = 1, dirty_bytes = 8, dirty_evictions = 8\<rparr>"
  by code_simp

subsection \<open>C7: the same access twice in a row\<close>

text \<open>
  C7. In a cache with \<open>E \<ge> 1\<close>, whatever its state: if an access succeeds, the access
  to the same address with the same operation that follows it (at any time \<open>n'\<close>)
  succeeds and sets the hit flag and not the miss flag. In a replay: if the record
  \<open>y\<close> follows a record \<open>x\<close> of the same operation and address, processing \<open>y\<close> adds one
  hit and no miss to the statistics.
\<close>

theorem repeated_access_hits:
  assumes "1 \<le> c_E c"
  shows "(isInCache a c op n res = Inr (c1, r1) \<longrightarrow>
            (\<exists>c2 r2. isInCache a c1 op n' (replicate STATNUM False) = Inr (c2, r2) \<and>
                      r2 ! 0 \<and> \<not> r2 ! 1)) \<and>
         (instruction y = instruction x \<and> address y = address x \<and>
          incrementStats (pre @ [x, y]) st c = Inr (st2, c2') \<longrightarrow>
            (\<exists>st1 c1'. incrementStats (pre @ [x]) st c = Inr (st1, c1') \<and>
                       hits st2 = hits st1 + 1 \<and> misses st2 = misses st1))"
  using isInCache_again [OF assms, of a op n res c1 r1 n']
    loop_repeat [OF assms, of y x pre 0 st st2 c2']
  by (simp add: incrementStats_def)

text \<open>
  A load from address 8 into the half-filled two-line cache, repeated; and the replay
  of two loads from address 8.
\<close>

theorem repeated_access_hits_witness:
  "(\<exists>c2 r2. isInCache 8 two_way_filled (CHR ''L'') 2 (replicate STATNUM False) = Inr (c2, r2) \<and>
             r2 ! 0 \<and> \<not> r2 ! 1) \<and>
   (\<exists>st1 c1'. incrementStats ([] @ [load_8]) zero_stats (makeCache two_way_geometry) = Inr (st1, c1') \<and>
       hits \<lparr>hits = 1, misses = 1, evictions = 0, dirty_bytes = 0, dirty_evictions = 0\<rparr>
         = hits st1 + 1 \<and>
       misses \<lparr>hits = 1, misses = 1, evictions = 0, dirty_bytes = 0, dirty_evictions = 0\<rparr>
         = misses st1)"
proof -
  have 0: "1 \<le> c_E two_way_half" "1 \<le> c_E (makeCache two_way_geometry)"
    by (simp_all add: two_way_half_def two_way_geometry_def)
  have 1: "isInCache 8 two_way_half (CHR ''L'') 1 (replicate STATNUM False) =
      Inr (two_way_filled, [False, True, False, False, False])"
    by code_simp
  have 2: "instruction load_8 = instruction load_8 \<and> address load_8 = address load_8 \<and>
      incrementStats ([] @ [load_8, load_8]) zero_stats (makeCache two_way_geometry) =
        Inr (\<lparr>hits = 1, misses = 1, evictions = 0, dirty_bytes = 0, dirty_evictions = 0\<rparr>,
             \<lparr>c_S = 1, c_E = 2, c_B = 8, c_s = 0, c_b = 3,
              sets = [[\<lparr>validbit = True, tagbits = 1, dirtybit = False, timestamp = 1\<rparr>,
                       init_line]]\<rparr>)"
    by code_simp
  have a: "\<exists>c2 r2. isInCache 8 two_way_filled (CHR ''L'') 2 (replicate STATNUM False) = Inr (c2, r2) \<and>
             r2 ! 0 \<and> \<not> r2 ! 1"
    using repeated_access_hits [OF 0(1), THEN conjunct1, rule_format, OF 1] .
  have b: "\<exists>st1 c1'. incrementStats ([] @ [load_8]) zero_stats (makeCache two_way_geometry) = Inr (st1, c1') \<and>
       hits \<lparr>hits = 1, misses = 1, evictions = 0, dirty_bytes = 0, dirty_evictions = 0\<rparr>
         = hits st1 + 1 \<and>
       misses \<lparr>hits = 1, misses = 1, evictions = 0, dirty_bytes = 0, dirty_evictions = 0\<rparr>
         = misses st1"
    using repeated_access_hits [OF 0(2), THEN conjunct2, rule_format, OF 2] .
  from a b show ?thesis by (rule conjI)
qed

subsection \<open>C8: no tag twice in a set\<close>

text \<open>
  C8. In a cache reachable from \<^verbatim>\<open>makeCache\<close> by accesses, two valid lines of a set
  with equal tags are the same line; and the cache left by any further successful
  access has this property again.
\<close>

theorem no_duplicate_tags:
  assumes "reachable g c"
  shows "(\<forall>si<length (sets c). \<forall>i<length (sets c ! si). \<forall>j<length (sets c ! si).
            validbit (sets c ! si ! i) \<and> validbit (sets c ! si ! j) \<and>
            tagbits (sets c ! si ! i) = tagbits (sets c ! si ! j) \<longrightarrow> i = j) \<and>
         (isInCache a c op n res = Inr (c', r) \<longrightarrow>
            (\<forall>si<length (sets c'). \<forall>i<length (sets c' ! si). \<forall>j<length (sets c' ! si).
               validbit (sets c' ! si ! i) \<and> validbit (sets c' ! si ! j) \<and>
               tagbits (sets c' ! si ! i) = tagbits (sets c' ! si ! j) \<longrightarrow> i = j))"
proof -
  have d: "\<forall>si<length (sets k). \<forall>i<length (sets k ! si). \<forall>j<length (sets k ! si).
            validbit (sets k ! si ! i) \<and> validbit (sets k ! si ! j) \<and>
            tagbits (sets k ! si ! i) = tagbits (sets k ! si ! j) \<longrightarrow> i = j"
    if "cache_inv k" for k
    using that unfolding cache_inv_def set_inv_def distinct_tags_def by blast
  from assms have inv: "cache_inv c" by (rule reachable_inv)
  have "cache_inv c'" if "isInCache a c op n res = Inr (c', r)"
    using inv that by (rule cache_inv_step)
  with d [OF inv] d [of c'] show ?thesis by blast
qed

text \<open>
  The filled two-line cache has two valid lines, of different tags; so has the cache
  that an access with a third tag leaves.
\<close>

theorem no_duplicate_tags_witness:
  "validbit (sets two_way_filled ! 0 ! 0) \<and> validbit (sets two_way_filled ! 0 ! 1) \<and>
   tagbits (sets two_way_filled ! 0 ! 0) \<noteq> tagbits (sets two_way_filled ! 0 ! 1) \<and>
   isInCache 16 two_way_filled (CHR ''L'') 2 (replicate STATNUM False) =
     Inr (\<lparr>c_S = 1, c_E = 2, c_B = 8, c_s = 0, c_b = 3,
           sets = [[\<lparr>validbit = True, tagbits = 2, dirtybit = False, timestamp = 2\<rparr>,
                    \<lparr>validbit = True, tagbits = 1, dirtybit = False, timestamp = 1\<rparr>]]\<rparr>,
          [False, True, True, False, True])"
proof -
  have 1: "isInCache 16 two_way_filled (CHR ''L'') 2 (replicate STATNUM False) =
     Inr (\<lparr>c_S = 1, c_E = 2, c_B = 8, c_s = 0, c_b = 3,
           sets = [[\<lparr>validbit = True, tagbits = 2, dirtybit = False, timestamp = 2\<rparr>,
                    \<lparr>validbit = True, tagbits = 1, dirtybit = False, timestamp = 1\<rparr>]]\<rparr>,
          [False, True, True, False, True])"
    by code_simp
  have 2: "validbit (sets two_way_filled ! 0 ! 0) \<and> validbit (sets two_way_filled ! 0 ! 1)"
    "length (sets two_way_filled) = 1" "length (sets two_way_filled ! 0) = 2"
    by (simp_all add: two_way_filled_def)
  from no_duplicate_tags [OF two_way_filled_reachable, THEN conjunct1, rule_format, of 0 0 1] 2
  have "tagbits (sets two_way_filled ! 0 ! 0) \<noteq> tagbits (sets two_way_filled ! 0 ! 1)"
    by auto
  with 1 2 show ?thesis by simp
qed

subsection \<open>C9: the statistics depend on operations and addresses only\<close>

text \<open>
  C9. Two traces whose records agree in operation and address, whatever their sizes,
  give the same result when \<^verbatim>\<open>main\<close> runs them from the same \<open>s\<close>, \<open>E\<close>, \<open>b\<close>, each run
  building its own cache: the same statistics, or the same failure.
\<close>

theorem replay_deterministic:
  assumes "map (\<lambda>r. (instruction r, address r)) xs = map (\<lambda>r. (instruction r, address r)) ys"
  shows "csim_main s E b xs = csim_main s E b ys"
proof -
  have same: "incrementStats xs st c = incrementStats ys st c" for st c
    using loop_same_accesses [OF assms] by (simp add: incrementStats_def)
  show ?thesis unfolding csim_main_def same ..
qed

theorem replay_deterministic_witness:
  "csim_main 0 2 3 [store_0, load_8] =
   csim_main 0 2 3 [store_0\<lparr>size_acc := 8\<rparr>, load_8\<lparr>size_acc := 2\<rparr>]"
proof -
  have "map (\<lambda>r. (instruction r, address r)) [store_0, load_8] =
        map (\<lambda>r. (instruction r, address r)) [store_0\<lparr>size_acc := 8\<rparr>, load_8\<lparr>size_acc := 2\<rparr>]"
    by simp
  then show ?thesis by (rule replay_deterministic)
qed

subsection \<open>C10: the valid lines of a set are a prefix\<close>

text \<open>
  C10. In a cache reachable from \<^verbatim>\<open>makeCache\<close> by accesses, if line \<open>i\<close> of a set is
  valid then so is every line \<open>j < i\<close> of that set. Therefore a scan of such a set
  that ends as a miss, be it at the first invalid line or at the end of the set, has
  not overlooked the tag: no valid line of the set carries it.
\<close>

theorem valid_lines_form_prefix:
  assumes "reachable g c" and "si < length (sets c)"
  shows "(\<forall>i<length (sets c ! si). validbit (sets c ! si ! i) \<longrightarrow>
            (\<forall>j<i. validbit (sets c ! si ! j))) \<and>
         (scan_loop (sets c ! si) tag (c_E c) 0 0 n = Inr (Miss notFull k) \<longrightarrow>
            (\<forall>j<length (sets c ! si). validbit (sets c ! si ! j) \<longrightarrow>
               tagbits (sets c ! si ! j) \<noteq> tag))"
proof -
  from assms(1) have inv: "cache_inv c" by (rule reachable_inv)
  with assms(2) have "prefix_valid (sets c ! si)"
    unfolding cache_inv_def set_inv_def by simp
  then have "\<forall>i<length (sets c ! si). validbit (sets c ! si ! i) \<longrightarrow>
            (\<forall>j<i. validbit (sets c ! si ! j))"
    unfolding prefix_valid_def .
  moreover have "\<forall>j<length (sets c ! si). validbit (sets c ! si ! j) \<longrightarrow>
               tagbits (sets c ! si ! j) \<noteq> tag"
    if "scan_loop (sets c ! si) tag (c_E c) 0 0 n = Inr (Miss notFull k)"
    using miss_means_absent [OF inv assms(2) that] by blast
  ultimately show ?thesis by blast
qed

text \<open>
  In the filled two-line cache line 1 is valid, hence line 0; and its scan for tag 2
  ends as a miss.
\<close>

theorem valid_lines_form_prefix_witness:
  "validbit (sets two_way_filled ! 0 ! 1) \<and> validbit (sets two_way_filled ! 0 ! 0) \<and>
   scan_loop (sets two_way_filled ! 0) 2 (c_E two_way_filled) 0 0 2 = Inr (Miss False 0) \<and>
   tagbits (sets two_way_filled ! 0 ! 1) \<noteq> 2"
proof -
  have 1: "0 < length (sets two_way_filled)" "1 < length (sets two_way_filled ! 0)"
    "validbit (sets two_way_filled ! 0 ! 1)"
    by (simp_all add: two_way_filled_def)
  have 2: "scan_loop (sets two_way_filled ! 0) 2 (c_E two_way_filled) 0 0 2 = Inr (Miss False 0)"
    by code_simp
  note t = valid_lines_form_prefix [OF two_way_filled_reachable 1(1), of 2 2 False 0]
  from t [THEN conjunct1, rule_format, OF 1(2) 1(3), of 0]
  have a: "validbit (sets two_way_filled ! 0 ! 0)" by simp
  from t [THEN conjunct2, rule_format, OF 2 1(2) 1(3)]
  have b: "tagbits (sets two_way_filled ! 0 ! 1) \<noteq> 2" .
  from 1(3) a 2 b show ?thesis by simp
qed

end
